theory Spec2Isabelle
  imports Main
begin

section \<open>Python strings\<close>

text \<open>
  Strings are lists of 8-bit characters.  The MAC addresses, status names and JSON keys
  that the program handles are ASCII; \<open>str.lower\<close> and \<open>str.upper\<close> are modelled on
  the ASCII letters and leave every other character alone.
\<close>

definition lower_char :: "char \<Rightarrow> char" where
  "lower_char c =
     (let n = (of_char c :: nat) in if 65 \<le> n \<and> n \<le> 90 then char_of (n + 32) else c)"

definition upper_char :: "char \<Rightarrow> char" where
  "upper_char c =
     (let n = (of_char c :: nat) in if 97 \<le> n \<and> n \<le> 122 then char_of (n - 32) else c)"

definition py_lower :: "string \<Rightarrow> string" where
  "py_lower s = map lower_char s"

definition py_upper :: "string \<Rightarrow> string" where
  "py_upper s = map upper_char s"

text \<open>\<open>str.splitlines()\<close>: the ASCII line boundaries, with \<open>\r\n\<close> as one boundary.\<close>

definition is_linebreak :: "char \<Rightarrow> bool" where
  "is_linebreak c = ((of_char c :: nat) \<in> {10, 11, 12, 13, 28, 29, 30})"

fun splitlines_from :: "string \<Rightarrow> string \<Rightarrow> string list" where
  "splitlines_from cur [] = (if cur = [] then [] else [rev cur])"
| "splitlines_from cur (c # cs) =
     (if is_linebreak c then
        (case cs of
           d # ds \<Rightarrow>
             if (of_char c :: nat) = 13 \<and> (of_char d :: nat) = 10
             then rev cur # splitlines_from [] ds
             else rev cur # splitlines_from [] cs
         | [] \<Rightarrow> [rev cur])
      else splitlines_from (c # cur) cs)"

definition py_splitlines :: "string \<Rightarrow> string list" where
  "py_splitlines s = splitlines_from [] s"

text \<open>\<open>str.split()\<close> without argument: runs of whitespace separate, no empty field.\<close>

definition is_space :: "char \<Rightarrow> bool" where
  "is_space c = ((of_char c :: nat) \<in> {9, 10, 11, 12, 13, 28, 29, 30, 31, 32})"

fun split_ws_from :: "string \<Rightarrow> string \<Rightarrow> string list" where
  "split_ws_from cur [] = (if cur = [] then [] else [rev cur])"
| "split_ws_from cur (c # cs) =
     (if is_space c then
        (if cur = [] then split_ws_from [] cs else rev cur # split_ws_from [] cs)
      else split_ws_from (c # cur) cs)"

definition py_split :: "string \<Rightarrow> string list" where
  "py_split s = split_ws_from [] s"

text \<open>\<open>str.split(sep)\<close> for a one-character separator: every separator ends a field.\<close>

fun split_on_from :: "char \<Rightarrow> string \<Rightarrow> string \<Rightarrow> string list" where
  "split_on_from sep cur [] = [rev cur]"
| "split_on_from sep cur (c # cs) =
     (if c = sep then rev cur # split_on_from sep [] cs
      else split_on_from sep (c # cur) cs)"

definition py_split_on :: "char \<Rightarrow> string \<Rightarrow> string list" where
  "py_split_on sep s = split_on_from sep [] s"

section \<open>Scan adapter: \<open>scan_network\<close>\<close>

text \<open>
  What \<open>subprocess.run\<close> does with \<open>arp-scan\<close>: it completes with the captured standard
  output, raises \<open>TimeoutExpired\<close> after 30 seconds, or raises anything else (the tool is
  missing, the output does not decode).
\<close>

datatype run_result = Completed string | TimeoutExpired | RunError

text \<open>The \<open>for line in result.stdout.splitlines()\<close> loop, with the set \<open>devices\<close>.\<close>

fun scan_lines :: "string list \<Rightarrow> string set \<Rightarrow> string set" where
  "scan_lines [] devices = devices"
| "scan_lines (line # rest) devices =
     (if CHR '':'' \<in> set line \<and> length (py_split line) \<ge> 2 then
        (let mac = py_lower (py_split line ! 1) in
         if length (py_split_on CHR '':'' mac) = 6
         then scan_lines rest (insert mac devices)
         else scan_lines rest devices)
      else scan_lines rest devices)"

definition scan_network :: "run_result \<Rightarrow> string set" where
  "scan_network r =
     (case r of
        Completed stdout \<Rightarrow> scan_lines (py_splitlines stdout) {}
      | TimeoutExpired \<Rightarrow> {}
      | RunError \<Rightarrow> {})"

section \<open>Policy registry: the table \<open>mac_addresses\<close>\<close>

type_synonym timestamp = nat

record device_row =
  mac_address :: string
  status :: string
  first_seen :: timestamp
  last_seen :: timestamp
  comment :: string

text \<open>The column constraint \<open>CHECK(status IN ('authorized', 'quarantine', 'banned'))\<close>.\<close>

definition status_check :: "string \<Rightarrow> bool" where
  "status_check s = (s = ''authorized'' \<or> s = ''quarantine'' \<or> s = ''banned'')"

text \<open>\<open>SELECT ... WHERE mac_address = ?\<close> followed by \<open>fetchone()\<close>.\<close>

definition select_row :: "device_row list \<Rightarrow> string \<Rightarrow> device_row option" where
  "select_row tbl mac = find (\<lambda>r. mac_address r = mac) tbl"

text \<open>\<open>UPDATE mac_addresses SET status = ?, last_seen = ? WHERE mac_address = ?\<close>.\<close>

definition sql_update :: "string \<Rightarrow> string \<Rightarrow> timestamp \<Rightarrow> device_row list \<Rightarrow> device_row list" where
  "sql_update mac st t tbl =
     map (\<lambda>r. if mac_address r = mac then r\<lparr>status := st, last_seen := t\<rparr> else r) tbl"

section \<open>JSON values and the Python operations on them\<close>

text \<open>
  A parsed JSON document.  Numbers are integers (no response field that the program
  inspects is fractional).  An object is the list of its items in iteration order, as a
  Python \<open>dict\<close> keeps them; a \<open>dict\<close> has no two items with the same key.
\<close>

datatype json =
    JNull
  | JBool bool
  | JNum int
  | JStr string
  | JArr "json list"
  | JObj "(string \<times> json) list"

text \<open>Truth value of a Python object (\<open>if x:\<close>, \<open>not x\<close>).\<close>

fun py_truthy :: "json \<Rightarrow> bool" where
  "py_truthy JNull = False"
| "py_truthy (JBool b) = b"
| "py_truthy (JNum n) = (n \<noteq> 0)"
| "py_truthy (JStr s) = (s \<noteq> [])"
| "py_truthy (JArr xs) = (xs \<noteq> [])"
| "py_truthy (JObj kvs) = (kvs \<noteq> [])"

text \<open>\<open>x == True\<close> and \<open>x == False\<close>: a \<open>bool\<close> is equal to itself and to the numbers 1 and 0.\<close>

fun py_eq_bool :: "json \<Rightarrow> bool \<Rightarrow> bool" where
  "py_eq_bool (JBool b) e = (b = e)"
| "py_eq_bool (JNum n) e = (n = (if e then 1 else 0))"
| "py_eq_bool _ e = False"

definition dict_get :: "(string \<times> json) list \<Rightarrow> string \<Rightarrow> json \<Rightarrow> json" where
  "dict_get kvs k d = (case map_of kvs k of Some v \<Rightarrow> v | None \<Rightarrow> d)"

text \<open>
  \<open>x.get(k, d)\<close> and \<open>x[k]\<close> for a string key.  \<open>None\<close> stands for the exception that
  Python raises (\<open>AttributeError\<close>, \<open>KeyError\<close>, \<open>TypeError\<close>): every caller below sits
  in a \<open>try\<close> whose handlers treat all of them alike.
\<close>

fun py_get :: "json \<Rightarrow> string \<Rightarrow> json \<Rightarrow> json option" where
  "py_get (JObj kvs) k d = Some (dict_get kvs k d)"
| "py_get _ k d = None"

fun py_item :: "json \<Rightarrow> string \<Rightarrow> json option" where
  "py_item (JObj kvs) k = map_of kvs k"
| "py_item _ k = None"

text \<open>\<open>x[:16]\<close> works on strings and lists and raises on everything else.\<close>

fun sliceable :: "json \<Rightarrow> bool" where
  "sliceable (JStr s) = True"
| "sliceable (JArr xs) = True"
| "sliceable _ = False"

section \<open>The gateway as seen from the client\<close>

text \<open>
  The HTTP requests the engine sends.  All go to \<open>{freebox_url}/api/{api_version}\<close>, which
  does not change after initialisation.  An authenticated request carries the session token
  of its \<open>X-Fbx-App-Auth\<close> header.  \<open>LoginSession key challenge\<close> is the POST whose
  password is the HMAC-SHA1 of \<open>challenge\<close> under \<open>key\<close>.  \<open>MacFilterPost\<close> carries the
  MAC of its body, \<open>MacFilterDelete\<close> the filter id that is formatted into its URL.
\<close>

datatype request =
    LoginProbe string
  | LoginChallenge
  | LoginSession string string
  | MacFilterGet string
  | MacFilterPost string string
  | MacFilterDelete string json
  | LanBrowserGet string

text \<open>
  What comes back: \<open>Reply code body\<close> with the status code and the parsed body, or
  \<open>Raised\<close> when \<open>requests\<close> or \<open>response.json()\<close> raises (timeout, connection error,
  a body that is not JSON).
\<close>

datatype reply = Raised | Reply nat json

text \<open>The gateway is any state machine answering requests.\<close>

type_synonym 'g gateway = "request \<Rightarrow> 'g \<Rightarrow> reply \<times> 'g"

text \<open>The observable actions of the engine, in the order they happen.\<close>

datatype event =
    Sent request
  | CallBlock string
  | CallAllow string
  | BlockRequested string
  | AllowRequested string
  | DbInsert string string
  | DbUpdate string string
  | NewDeviceAlert string string
  | BlockingAlert string
  | DriftWarning string

text \<open>
  The state of the engine process and of what it talks to: the fields of the global
  \<open>freebox_api\<close> instance, the gateway, the registry table, the clock (the sequence
  of the readings of \<open>datetime.now()\<close> that the engine stores in the registry, and how
  many it has taken), the counter of the main loop and the trace of events.
\<close>

record 'g world =
  session_token :: json
  app_token :: json
  connected :: bool
  gateway :: 'g
  mac_addresses :: "device_row list"
  clock :: "nat \<Rightarrow> timestamp"
  ticks :: nat
  status_check_counter :: nat
  events :: "event list"

definition emit :: "event \<Rightarrow> 'g world \<Rightarrow> 'g world" where
  "emit e w = w\<lparr>events := events w @ [e]\<rparr>"

definition send :: "'g gateway \<Rightarrow> request \<Rightarrow> 'g world \<Rightarrow> reply \<times> 'g world" where
  "send gw rq w =
     (case gw rq (gateway w) of
        (rp, g') \<Rightarrow> (rp, w\<lparr>gateway := g', events := events w @ [Sent rq]\<rparr>))"

text \<open>
  A request with \<open>headers = {"X-Fbx-App-Auth": self.session_token}\<close>: \<open>requests\<close> refuses
  a header value that is not a string before anything is sent.
\<close>

definition send_auth :: "'g gateway \<Rightarrow> (string \<Rightarrow> request) \<Rightarrow> 'g world \<Rightarrow> reply \<times> 'g world" where
  "send_auth gw mk w =
     (case session_token w of
        JStr tok \<Rightarrow> send gw (mk tok) w
      | _ \<Rightarrow> (Raised, w))"

section \<open>Registry operations of the engine\<close>

definition datetime_now :: "'g world \<Rightarrow> timestamp \<times> 'g world" where
  "datetime_now w = (clock w (ticks w), w\<lparr>ticks := Suc (ticks w)\<rparr>)"

text \<open>
  \<open>update_mac_status\<close>.  The Boolean is \<open>False\<close> when the statement raises
  \<open>sqlite3.IntegrityError\<close> for the status constraint; nothing is committed then, and
  the caller does not catch it.
\<close>

definition update_mac_status :: "string \<Rightarrow> string \<Rightarrow> 'g world \<Rightarrow> bool \<times> 'g world" where
  "update_mac_status mac st w =
     (case select_row (mac_addresses w) mac of
        Some existing \<Rightarrow>
          (case datetime_now w of
             (t, w1) \<Rightarrow>
               if status_check st
               then (True, emit (DbUpdate mac st)
                             (w1\<lparr>mac_addresses := sql_update mac st t (mac_addresses w1)\<rparr>))
               else (False, w1))
      | None \<Rightarrow>
          (case datetime_now w of
             (t1, w1) \<Rightarrow>
               (case datetime_now w1 of
                  (t2, w2) \<Rightarrow>
                    if status_check st
                    then (True, emit (DbInsert mac st)
                                  (w2\<lparr>mac_addresses := mac_addresses w2 @
                                        [\<lparr>mac_address = mac, status = st, first_seen = t1,
                                          last_seen = t2, comment = ''''\<rparr>]\<rparr>))
                    else (False, w2))))"

text \<open>\<open>get_mac_status\<close>: the status of the row, \<open>None\<close> when there is no row.\<close>

definition get_mac_status :: "string \<Rightarrow> 'g world \<Rightarrow> string option" where
  "get_mac_status mac w = map_option status (select_row (mac_addresses w) mac)"

section \<open>Session manager: class \<open>FreeboxAPI\<close>\<close>

text \<open>
  \<open>get_new_session_token\<close>: the handshake.  The new token is stored before the log line
  that slices it, so a token that cannot be sliced is kept although the method returns
  \<open>False\<close>.  Writing the token back to the credential file changes nothing the engine
  reads again and never raises past \<open>save_session_token_to_file\<close>; it is left out.
\<close>

definition get_new_session_token :: "'g gateway \<Rightarrow> 'g world \<Rightarrow> bool \<times> 'g world" where
  "get_new_session_token gw w =
     (if \<not> py_truthy (app_token w) then (False, w)
      else
        (case send gw LoginChallenge w of
           (Reply code (JObj result), w1) \<Rightarrow>
             if \<not> py_truthy (dict_get result ''success'' (JBool False)) then (False, w1)
             else
               (case Option.bind (map_of result ''result'') (\<lambda>r. py_item r ''challenge'') of
                  Some (JStr challenge) \<Rightarrow>
                    (case app_token w1 of
                       JStr key \<Rightarrow>
                         (case send gw (LoginSession key challenge) w1 of
                            (Reply code2 (JObj result2), w2) \<Rightarrow>
                              if py_truthy (dict_get result2 ''success'' (JBool False)) then
                                (case Option.bind (map_of result2 ''result'')
                                        (\<lambda>r. py_item r ''session_token'') of
                                   Some tok \<Rightarrow> (sliceable tok, w2\<lparr>session_token := tok\<rparr>)
                                 | None \<Rightarrow> (False, w2))
                              else (False, w2)
                          | (_, w2) \<Rightarrow> (False, w2))
                     | _ \<Rightarrow> (False, w1))
                | _ \<Rightarrow> (False, w1))
         | (_, w1) \<Rightarrow> (False, w1)))"

text \<open>\<open>is_session_valid\<close>: the probe on \<open>/login/\<close>.\<close>

definition is_session_valid :: "'g gateway \<Rightarrow> 'g world \<Rightarrow> bool \<times> 'g world" where
  "is_session_valid gw w =
     (if \<not> py_truthy (session_token w) then (False, w)
      else
        (case send_auth gw LoginProbe w of
           (Reply code (JObj result), w1) \<Rightarrow>
             if code = 200 then (py_truthy (dict_get result ''success'' (JBool False)), w1)
             else (False, w1)
         | (_, w1) \<Rightarrow> (False, w1)))"

definition ensure_valid_session :: "'g gateway \<Rightarrow> 'g world \<Rightarrow> bool \<times> 'g world" where
  "ensure_valid_session gw w =
     (if \<not> py_truthy (session_token w) then get_new_session_token gw w
      else
        (case is_session_valid gw w of
           (True, w1) \<Rightarrow> (True, w1)
         | (False, w1) \<Rightarrow>
             (case get_new_session_token gw w1 of
                (True, w2) \<Rightarrow> (True, w2)
              | (False, w2) \<Rightarrow> (False, w2\<lparr>connected := False\<rparr>))))"

section \<open>Enforcement client\<close>

text \<open>\<open>f.get("mac", "")\<close> of a filter entry, which must then have \<open>.lower()\<close>.\<close>

fun entry_mac :: "json \<Rightarrow> string option" where
  "entry_mac (JObj kvs) =
     (case dict_get kvs ''mac'' (JStr []) of JStr s \<Rightarrow> Some s | _ \<Rightarrow> None)"
| "entry_mac _ = None"

text \<open>
  The two search loops of \<open>block_device_by_mac\<close>, over a list of entries and over the
  keys of a mapping.  \<open>None\<close>: the loop raised.
\<close>

fun blocked_in_list :: "json list \<Rightarrow> string \<Rightarrow> bool option" where
  "blocked_in_list [] mac = Some False"
| "blocked_in_list (f # fs) mac =
     (case entry_mac f of
        None \<Rightarrow> None
      | Some s \<Rightarrow> if py_lower s = py_lower mac then Some True else blocked_in_list fs mac)"

fun blocked_in_dict :: "(string \<times> json) list \<Rightarrow> string \<Rightarrow> bool" where
  "blocked_in_dict [] mac = False"
| "blocked_in_dict ((existing_mac, info) # rest) mac =
     (if py_lower existing_mac = py_lower mac then True else blocked_in_dict rest mac)"

definition already_blocked :: "json \<Rightarrow> string \<Rightarrow> bool option" where
  "already_blocked existing_filters mac =
     (case existing_filters of
        JArr fs \<Rightarrow> blocked_in_list fs mac
      | JObj kvs \<Rightarrow> Some (blocked_in_dict kvs mac)
      | _ \<Rightarrow> Some False)"

text \<open>
  The POST of \<open>block_device_by_mac\<close> and what follows it.  After a successful answer the
  host name is read with \<open>result.get("result", {}).get("hostname", ...)\<close>, which raises
  when the result is not an object.
\<close>

definition add_to_blacklist :: "'g gateway \<Rightarrow> string \<Rightarrow> 'g world \<Rightarrow> bool \<times> 'g world" where
  "add_to_blacklist gw mac w =
     (case send_auth gw (\<lambda>tok. MacFilterPost tok (py_upper mac)) w of
        (Reply code (JObj result), w1) \<Rightarrow>
          if py_truthy (dict_get result ''success'' (JBool False)) then
            (case py_get (dict_get result ''result'' (JObj [])) ''hostname'' (JStr ''Appareil'') of
               Some device_name \<Rightarrow> (True, w1)
             | None \<Rightarrow> (False, w1))
          else (False, w1)
      | (_, w1) \<Rightarrow> (False, w1))"

definition block_device_by_mac :: "'g gateway \<Rightarrow> string \<Rightarrow> 'g world \<Rightarrow> bool \<times> 'g world" where
  "block_device_by_mac gw mac w0 =
     (let w = emit (CallBlock mac) w0 in
      if \<not> connected w then (False, w)
      else
        (case ensure_valid_session gw w of
           (False, w1) \<Rightarrow> (False, w1)
         | (True, w1) \<Rightarrow>
             (case send_auth gw MacFilterGet w1 of
                (Reply code (JObj result), w2) \<Rightarrow>
                  if py_truthy (dict_get result ''success'' (JBool False)) then
                    (case already_blocked (dict_get result ''result'' (JArr [])) mac of
                       Some True \<Rightarrow> (True, w2)
                     | Some False \<Rightarrow> add_to_blacklist gw mac w2
                     | None \<Rightarrow> (False, w2))
                  else add_to_blacklist gw mac w2
              | (_, w2) \<Rightarrow> (False, w2))))"

text \<open>
  The two search loops of \<open>allow_device_by_mac\<close>, which stop at the first match and
  give its \<open>filter_id\<close> (\<open>JNull\<close> is Python's \<open>None\<close>).
\<close>

fun filter_id_in_list :: "json list \<Rightarrow> string \<Rightarrow> json option" where
  "filter_id_in_list [] mac = Some JNull"
| "filter_id_in_list (f # fs) mac =
     (case entry_mac f of
        None \<Rightarrow> None
      | Some s \<Rightarrow>
          if py_lower s = py_lower mac then py_get f ''id'' JNull
          else filter_id_in_list fs mac)"

fun filter_id_in_dict :: "(string \<times> json) list \<Rightarrow> string \<Rightarrow> json" where
  "filter_id_in_dict [] mac = JNull"
| "filter_id_in_dict ((existing_mac, info) # rest) mac =
     (if py_lower existing_mac = py_lower mac then
        (case info of
           JObj kvs \<Rightarrow> dict_get kvs ''id'' JNull
         | _ \<Rightarrow> JStr (existing_mac @ ''-blacklist''))
      else filter_id_in_dict rest mac)"

definition find_filter_id :: "json \<Rightarrow> string \<Rightarrow> json option" where
  "find_filter_id existing_filters mac =
     (case existing_filters of
        JArr fs \<Rightarrow> filter_id_in_list fs mac
      | JObj kvs \<Rightarrow> Some (filter_id_in_dict kvs mac)
      | _ \<Rightarrow> Some JNull)"

definition allow_device_by_mac :: "'g gateway \<Rightarrow> string \<Rightarrow> 'g world \<Rightarrow> bool \<times> 'g world" where
  "allow_device_by_mac gw mac w0 =
     (let w = emit (CallAllow mac) w0 in
      if \<not> connected w then (False, w)
      else
        (case ensure_valid_session gw w of
           (False, w1) \<Rightarrow> (False, w1)
         | (True, w1) \<Rightarrow>
             (case send_auth gw MacFilterGet w1 of
                (Reply code (JObj result), w2) \<Rightarrow>
                  if \<not> py_truthy (dict_get result ''success'' (JBool False)) then (False, w2)
                  else
                    (case find_filter_id (dict_get result ''result'' (JArr [])) mac of
                       None \<Rightarrow> (False, w2)
                     | Some filter_id \<Rightarrow>
                         if \<not> py_truthy filter_id then (True, w2)
                         else
                           (case send_auth gw (\<lambda>tok. MacFilterDelete tok filter_id) w2 of
                              (Reply code3 (JObj result3), w3) \<Rightarrow>
                                (py_truthy (dict_get result3 ''success'' (JBool False)), w3)
                            | (_, w3) \<Rightarrow> (False, w3)))
              | (_, w2) \<Rightarrow> (False, w2))))"

section \<open>Live state query\<close>

text \<open>
  \<open>device.get("l2ident", {}).get("id", "").lower()\<close>: the lowercase MAC of a device of
  the gateway's list, \<open>None\<close> when the expression raises.
\<close>

fun device_mac :: "json \<Rightarrow> string option" where
  "device_mac (JObj device) =
     (case dict_get device ''l2ident'' (JObj []) of
        JObj l2ident \<Rightarrow>
          (case dict_get l2ident ''id'' (JStr []) of
             JStr s \<Rightarrow> Some (py_lower s)
           | _ \<Rightarrow> None)
      | _ \<Rightarrow> None)"
| "device_mac _ = None"

text \<open>\<open>d.get("active", False)\<close> in the list comprehension; it raises unless \<open>d\<close> is an object.\<close>

fun device_active :: "json \<Rightarrow> bool option" where
  "device_active (JObj device) = Some (py_truthy (dict_get device ''active'' (JBool False)))"
| "device_active _ = None"

text \<open>
  The debug lines that \<open>get_network_devices\<close> writes for the first three active devices
  evaluate \<open>device.get("l2ident", {}).get(...)\<close> and, when \<open>l3connectivities\<close> is not
  empty, \<open>device.get("l3connectivities", [{}])[0].get(...)\<close>.  \<open>False\<close>: they raise.
\<close>

fun device_loggable :: "json \<Rightarrow> bool" where
  "device_loggable (JObj device) =
     ((case dict_get device ''l2ident'' (JObj []) of JObj l2ident \<Rightarrow> True | _ \<Rightarrow> False)
      \<and> (let l3 = dict_get device ''l3connectivities'' JNull in
         if py_truthy l3 then
           (case l3 of JArr (JObj head # others) \<Rightarrow> True | _ \<Rightarrow> False)
         else True))"
| "device_loggable _ = False"

text \<open>
  \<open>get_network_devices\<close>.  The value returned is only iterated and tested for emptiness
  by its callers, so an empty string or object in the place of the list is given as the
  empty list.
\<close>

definition get_network_devices :: "'g gateway \<Rightarrow> 'g world \<Rightarrow> json list \<times> 'g world" where
  "get_network_devices gw w =
     (if \<not> connected w then ([], w)
      else
        (case ensure_valid_session gw w of
           (False, w1) \<Rightarrow> ([], w1)
         | (True, w1) \<Rightarrow>
             (case send_auth gw LanBrowserGet w1 of
                (Reply code (JObj result), w2) \<Rightarrow>
                  if code = 200 \<and> py_truthy (dict_get result ''success'' (JBool False)) then
                    (case dict_get result ''result'' (JArr []) of
                       JArr devices \<Rightarrow>
                         if list_all (\<lambda>d. device_active d \<noteq> None) devices
                            \<and> list_all device_loggable
                                (take 3 (filter (\<lambda>d. device_active d = Some True) devices))
                         then (devices, w2)
                         else ([], w2)
                     | _ \<Rightarrow> ([], w2))
                  else ([], w2)
              | (_, w2) \<Rightarrow> ([], w2))))"

text \<open>The search loop of \<open>get_device_hostname\<close>; \<open>None\<close>: it raised.\<close>

fun hostname_in :: "json list \<Rightarrow> string \<Rightarrow> json option" where
  "hostname_in [] mac = Some (JStr ''Appareil inconnu'')"
| "hostname_in (device # rest) mac =
     (case device_mac device of
        None \<Rightarrow> None
      | Some m \<Rightarrow>
          if m = py_lower mac then py_get device ''primary_name'' (JStr ''Appareil inconnu'')
          else hostname_in rest mac)"

definition get_device_hostname :: "'g gateway \<Rightarrow> string \<Rightarrow> 'g world \<Rightarrow> json \<times> 'g world" where
  "get_device_hostname gw mac w =
     (if \<not> connected w then (JStr ''Appareil inconnu'', w)
      else
        (case get_network_devices gw w of
           (devices, w1) \<Rightarrow>
             (case hostname_in devices mac of
                Some hostname \<Rightarrow> (hostname, w1)
              | None \<Rightarrow> (JStr ''Appareil inconnu'', w1))))"

section \<open>Notifications\<close>

text \<open>
  Both alerts look the host name up on the gateway and then go to the console or, when a
  webhook is configured, to Slack; a failure of the webhook is caught and printed.
\<close>

definition send_blocking_alert :: "'g gateway \<Rightarrow> string \<Rightarrow> 'g world \<Rightarrow> 'g world" where
  "send_blocking_alert gw mac w =
     (case get_device_hostname gw mac w of
        (hostname, w1) \<Rightarrow> emit (BlockingAlert mac) w1)"

definition send_slack_alert :: "'g gateway \<Rightarrow> string \<Rightarrow> string \<Rightarrow> 'g world \<Rightarrow> 'g world" where
  "send_slack_alert gw mac st w =
     (case get_device_hostname gw mac w of
        (hostname, w1) \<Rightarrow> emit (NewDeviceAlert mac st) w1)"

section \<open>Enforcement actions of the loop\<close>

definition block_mac :: "'g gateway \<Rightarrow> string \<Rightarrow> 'g world \<Rightarrow> 'g world" where
  "block_mac gw mac w0 =
     (let w = emit (BlockRequested mac) w0 in
      if connected w then
        (case block_device_by_mac gw mac w of
           (True, w1) \<Rightarrow> send_blocking_alert gw mac w1
         | (False, w1) \<Rightarrow> w1)
      else w)"

definition allow_mac :: "'g gateway \<Rightarrow> string \<Rightarrow> 'g world \<Rightarrow> 'g world" where
  "allow_mac gw mac w0 =
     (let w = emit (AllowRequested mac) w0 in
      if connected w then snd (allow_device_by_mac gw mac w) else w)"

section \<open>Drift check: \<open>check_status_changes\<close>\<close>

text \<open>\<open>device.get("access", True)\<close>, evaluated for devices that have a MAC.\<close>

fun device_access :: "json \<Rightarrow> json" where
  "device_access (JObj device) = dict_get device ''access'' (JBool True)"
| "device_access _ = JBool True"

text \<open>The dictionary \<open>freebox_states\<close>; \<open>None\<close>: building it raised.\<close>

fun freebox_states :: "json list \<Rightarrow> (string \<rightharpoonup> json) \<Rightarrow> (string \<rightharpoonup> json) option" where
  "freebox_states [] states = Some states"
| "freebox_states (device # rest) states =
     (case device_mac device of
        None \<Rightarrow> None
      | Some mac \<Rightarrow>
          if mac \<noteq> [] then
            freebox_states rest (states(mac \<mapsto> device_access device))
          else freebox_states rest states)"

text \<open>The loop over the rows of the registry.\<close>

fun drift_loop ::
  "'g gateway \<Rightarrow> (string \<rightharpoonup> json) \<Rightarrow> (string \<times> string) list \<Rightarrow> 'g world \<Rightarrow> 'g world" where
  "drift_loop gw states [] w = w"
| "drift_loop gw states ((mac, db_status) # rest) w =
     (case states mac of
        None \<Rightarrow> drift_loop gw states rest w
      | Some current_access \<Rightarrow>
          (case (if db_status = ''banned'' \<or> db_status = ''quarantine'' then Some False
                 else if db_status = ''authorized'' then Some True
                 else None) of
             None \<Rightarrow> drift_loop gw states rest w
           | Some expected_access \<Rightarrow>
               if \<not> py_eq_bool current_access expected_access then
                 (if (db_status = ''banned'' \<or> db_status = ''quarantine'')
                     \<and> py_truthy current_access then
                    drift_loop gw states rest
                      (snd (block_device_by_mac gw mac (emit (DriftWarning mac) w)))
                  else if db_status = ''authorized'' \<and> \<not> py_truthy current_access then
                    drift_loop gw states rest
                      (snd (allow_device_by_mac gw mac (emit (DriftWarning mac) w)))
                  else drift_loop gw states rest w)
               else drift_loop gw states rest w))"

definition check_status_changes :: "'g gateway \<Rightarrow> 'g world \<Rightarrow> 'g world" where
  "check_status_changes gw w =
     (if \<not> connected w then w
      else
        (let db_devices = map (\<lambda>r. (mac_address r, status r)) (mac_addresses w) in
         case get_network_devices gw w of
           (freebox_devices, w1) \<Rightarrow>
             if freebox_devices = [] then w1
             else
               (case freebox_states freebox_devices Map.empty of
                  None \<Rightarrow> w1
                | Some states \<Rightarrow> drift_loop gw states db_devices w1)))"

section \<open>Reconciliation loop: one iteration of \<open>main\<close>\<close>

text \<open>The dictionary \<open>known_macs\<close> built from all rows of the table.\<close>

definition known_macs :: "device_row list \<Rightarrow> (string \<rightharpoonup> string)" where
  "known_macs tbl = fold (\<lambda>row m. m(mac_address row \<mapsto> status row)) tbl Map.empty"

text \<open>
  The body of \<open>for mac in detected_macs\<close>.  The Boolean is \<open>False\<close> when
  \<open>update_mac_status\<close> raised, which ends the iteration of \<open>main\<close>.
\<close>

definition process_mac ::
  "'g gateway \<Rightarrow> (string \<rightharpoonup> string) \<Rightarrow> string \<Rightarrow> 'g world \<Rightarrow> bool \<times> 'g world" where
  "process_mac gw known mac w =
     (case known mac of
        None \<Rightarrow>
          (case update_mac_status mac ''quarantine'' w of
             (False, w1) \<Rightarrow> (False, w1)
           | (True, w1) \<Rightarrow> (True, send_slack_alert gw mac ''quarantine'' (block_mac gw mac w1)))
      | Some st \<Rightarrow>
          (let w1 = (if st = ''banned'' then block_mac gw mac w
                     else if st = ''quarantine'' then block_mac gw mac w
                     else if st = ''authorized'' then allow_mac gw mac w
                     else w)
           in if st \<noteq> [] then update_mac_status mac st w1 else (True, w1)))"

fun process_macs ::
  "'g gateway \<Rightarrow> (string \<rightharpoonup> string) \<Rightarrow> string list \<Rightarrow> 'g world \<Rightarrow> bool \<times> 'g world" where
  "process_macs gw known [] w = (True, w)"
| "process_macs gw known (mac # rest) w =
     (case process_mac gw known mac w of
        (False, w1) \<Rightarrow> (False, w1)
      | (True, w1) \<Rightarrow> process_macs gw known rest w1)"

text \<open>
  One iteration of the \<open>while True\<close> loop, from the scan to the wait.  \<open>proc\<close> is what the
  scan subprocess does in this iteration, and \<open>visit\<close> the order in which the \<open>for\<close> loop
  visits the set \<open>detected_macs\<close>.  An exception is caught at the end of the iteration,
  so the drift check and the counter are skipped then.
\<close>

definition main_cycle ::
  "'g gateway \<Rightarrow> run_result \<Rightarrow> (string set \<Rightarrow> string list) \<Rightarrow> 'g world \<Rightarrow> 'g world" where
  "main_cycle gw proc visit w =
     (let detected_macs = scan_network proc in
      if detected_macs = {} then w
      else
        (let known = known_macs (mac_addresses w) in
         case process_macs gw known (visit detected_macs) w of
           (False, w1) \<Rightarrow> w1
         | (True, w1) \<Rightarrow>
             (let w2 = w1\<lparr>status_check_counter := status_check_counter w1 + 1\<rparr> in
              if status_check_counter w2 \<ge> 3
              then (check_status_changes gw w2)\<lparr>status_check_counter := 0\<rparr>
              else w2)))"

section \<open>Concrete inputs\<close>

definition row01 :: device_row where
  "row01 = \<lparr>mac_address = ''aa:bb:cc:dd:ee:01'', status = ''authorized'',
             first_seen = 5, last_seen = 7, comment = ''printer''\<rparr>"

text \<open>An engine that is not connected to any gateway, with one registry row.\<close>

definition offline_world :: "unit world" where
  "offline_world =
     \<lparr>session_token = JNull, app_token = JNull, connected = False, gateway = (),
      mac_addresses = [row01], clock = (\<lambda>n. 100 + n), ticks = 0,
      status_check_counter = 0, events = []\<rparr>"

section \<open>Notions used in the proofs\<close>

text \<open>What the calls to the gateway never touch: the registry, the clock, the loop counter
  and the application token.\<close>

definition frame :: "'g world \<Rightarrow> 'g world \<Rightarrow> bool" where
  "frame w w' =
     (mac_addresses w' = mac_addresses w \<and> clock w' = clock w \<and> ticks w' = ticks w
      \<and> status_check_counter w' = status_check_counter w \<and> app_token w' = app_token w)"

text \<open>\<open>steps P w w'\<close>: from \<open>w\<close> to \<open>w'\<close> the trace grew by events that satisfy \<open>P\<close>, and
  the frame is kept.\<close>

definition steps :: "(event \<Rightarrow> bool) \<Rightarrow> 'g world \<Rightarrow> 'g world \<Rightarrow> bool" where
  "steps P w w' = (frame w w' \<and> (\<exists>es. events w' = events w @ es \<and> list_all P es))"

fun is_sent :: "event \<Rightarrow> bool" where
  "is_sent (Sent rq) = True"
| "is_sent _ = False"

text \<open>The MAC an event is about; a request is about none.\<close>

fun subject :: "event \<Rightarrow> string option" where
  "subject (Sent rq) = None"
| "subject (CallBlock m) = Some m"
| "subject (CallAllow m) = Some m"
| "subject (BlockRequested m) = Some m"
| "subject (AllowRequested m) = Some m"
| "subject (DbInsert m s) = Some m"
| "subject (DbUpdate m s) = Some m"
| "subject (NewDeviceAlert m s) = Some m"
| "subject (BlockingAlert m) = Some m"
| "subject (DriftWarning m) = Some m"

text \<open>Events of enforcement: everything but registry writes and new-device alerts.\<close>

fun enforcing :: "event \<Rightarrow> bool" where
  "enforcing (DbInsert m s) = False"
| "enforcing (DbUpdate m s) = False"
| "enforcing (NewDeviceAlert m s) = False"
| "enforcing _ = True"

definition side :: "string \<Rightarrow> event \<Rightarrow> bool" where
  "side m e = (enforcing e \<and> (subject e = None \<or> subject e = Some m))"

fun is_login :: "request \<Rightarrow> bool" where
  "is_login (LoginProbe tok) = True"
| "is_login LoginChallenge = True"
| "is_login (LoginSession k c) = True"
| "is_login _ = False"


definition about :: "string \<Rightarrow> event \<Rightarrow> bool" where
  "about m e = (subject e = None \<or> subject e = Some m)"

text \<open>The primary key of the table: no two rows for one MAC.\<close>

definition primary_key :: "device_row list \<Rightarrow> bool" where
  "primary_key tbl = distinct (map mac_address tbl)"

text \<open>Every row satisfies the status constraint.\<close>

definition status_constraint :: "device_row list \<Rightarrow> bool" where
  "status_constraint tbl = list_all (\<lambda>r. status_check (status r)) tbl"

text \<open>\<open>status_kept tbl0 tbl\<close>: every MAC that has a row in \<open>tbl0\<close> has a row with the same
  status in \<open>tbl\<close>, and a MAC without a row in \<open>tbl0\<close> has no row or a quarantine row
  in \<open>tbl\<close>.\<close>

definition status_kept :: "device_row list \<Rightarrow> device_row list \<Rightarrow> bool" where
  "status_kept tbl0 tbl =
     ((\<forall>m r. select_row tbl0 m = Some r \<longrightarrow>
          map_option status (select_row tbl m) = Some (status r))
      \<and> (\<forall>m. select_row tbl0 m = None \<longrightarrow>
          map_option status (select_row tbl m) \<in> {None, Some ''quarantine''}))"

text \<open>\<open>grows P w w'\<close>: the trace grew by events that satisfy \<open>P\<close>.\<close>

definition grows :: "(event \<Rightarrow> bool) \<Rightarrow> 'g world \<Rightarrow> 'g world \<Rightarrow> bool" where
  "grows P w w' = (\<exists>es. events w' = events w @ es \<and> list_all P es)"

text \<open>The MAC and the status that a registry write stores.\<close>

fun written :: "event \<Rightarrow> (string \<times> string) option" where
  "written (DbInsert m s) = Some (m, s)"
| "written (DbUpdate m s) = Some (m, s)"
| "written _ = None"

text \<open>A registry write stores the status that \<open>known\<close> has for the MAC, and
  \<open>quarantine\<close> when \<open>known\<close> has none.\<close>

definition write_ok :: "(string \<rightharpoonup> string) \<Rightarrow> event \<Rightarrow> bool" where
  "write_ok known e =
     (case written e of
        None \<Rightarrow> True
      | Some (m, s) \<Rightarrow> s = (case known m of Some s0 \<Rightarrow> s0 | None \<Rightarrow> ''quarantine''))"

text \<open>A gateway that never answers.\<close>

definition silent :: "unit gateway" where
  "silent rq g = (Raised, g)"

text \<open>\<open>classifies m e\<close>: the event is a registry write or a new-device alert for \<open>m\<close>.\<close>

definition classifies :: "string \<Rightarrow> event \<Rightarrow> bool" where
  "classifies m e = (\<exists>s. e = NewDeviceAlert m s \<or> e = DbInsert m s \<or> e = DbUpdate m s)"

text \<open>Notifications to the operator.\<close>

fun is_alert :: "event \<Rightarrow> bool" where
  "is_alert (NewDeviceAlert m s) = True"
| "is_alert (BlockingAlert m) = True"
| "is_alert _ = False"

text \<open>\<open>drift_free m e\<close>: the event is no alert and is about another MAC than \<open>m\<close>
  (or about none).\<close>

definition drift_free :: "string \<Rightarrow> event \<Rightarrow> bool" where
  "drift_free m e = (\<not> is_alert e \<and> subject e \<noteq> Some m)"

text \<open>A gateway that plays a script: it gives the next reply of a list, whatever is asked.\<close>

definition scripted :: "reply list gateway" where
  "scripted rq g = (case g of [] \<Rightarrow> (Raised, []) | rp # rest \<Rightarrow> (rp, rest))"

definition ok_reply :: "json \<Rightarrow> reply" where
  "ok_reply result = Reply 200 (JObj [(''success'', JBool True), (''result'', result)])"

definition rejected_reply :: reply where
  "rejected_reply =
     Reply 403 (JObj [(''success'', JBool False), (''error_code'', JStr ''auth_required'')])"

definition row03 :: device_row where
  "row03 = \<lparr>mac_address = ''aa:bb:cc:dd:ee:03'', status = ''banned'',
             first_seen = 1, last_seen = 2, comment = ''''\<rparr>"

definition device03 :: json where
  "device03 = JObj [(''l2ident'', JObj [(''id'', JStr ''aa:bb:cc:dd:ee:03'')]),
                    (''active'', JBool False), (''access'', JBool True)]"

text \<open>A connected engine with a banned device which the gateway reports as allowed: the
  gateway accepts the session, lists the device, accepts the session again, lists an
  empty filter and accepts the new entry.\<close>

definition drift_world :: "reply list world" where
  "drift_world =
     \<lparr>session_token = JStr ''tok'', app_token = JStr ''app'', connected = True,
      gateway = [ok_reply (JObj []), ok_reply (JArr [device03]),
                 ok_reply (JObj []), ok_reply (JArr []), ok_reply (JObj [])],
      mac_addresses = [row03], clock = (\<lambda>n. 100 + n), ticks = 0,
      status_check_counter = 0, events = []\<rparr>"

text \<open>Requests that change the filter of the gateway.\<close>

fun is_mutation :: "request \<Rightarrow> bool" where
  "is_mutation (MacFilterPost tok m) = True"
| "is_mutation (MacFilterDelete tok i) = True"
| "is_mutation _ = False"

fun mutates :: "event \<Rightarrow> bool" where
  "mutates (Sent rq) = is_mutation rq"
| "mutates _ = False"

text \<open>
  The MACs that a filter-list result lists: the \<open>mac\<close> fields of a sequence of entry
  objects or the keys of a mapping; nothing for any other value.  \<open>None\<close>: an element of
  the sequence is no object with a string for its MAC.
\<close>

definition filter_macs :: "json \<Rightarrow> string list option" where
  "filter_macs existing_filters =
     (case existing_filters of
        JArr fs \<Rightarrow> those (map entry_mac fs)
      | JObj kvs \<Rightarrow> Some (map fst kvs)
      | _ \<Rightarrow> Some [])"

text \<open>A connected engine whose session the gateway accepts, and a filter that lists
  one other device.\<close>

definition entry04 :: json where
  "entry04 = JObj [(''mac'', JStr ''AA:BB:CC:DD:EE:04''), (''type'', JStr ''blacklist''),
                   (''id'', JStr ''AA:BB:CC:DD:EE:04-blacklist'')]"

definition allow_world :: "reply list world" where
  "allow_world =
     \<lparr>session_token = JStr ''tok'', app_token = JStr ''app'', connected = True,
      gateway = [ok_reply (JObj []), ok_reply (JArr [entry04])],
      mac_addresses = [row01], clock = (\<lambda>n. 100 + n), ticks = 0,
      status_check_counter = 0, events = []\<rparr>"

text \<open>
  The same engine in front of a gateway whose filter already lists the banned device while
  its device list reports the access as allowed, and in front of a gateway that stops
  answering at the GET of the filter.
\<close>

definition entry03 :: json where
  "entry03 = JObj [(''mac'', JStr ''AA:BB:CC:DD:EE:03''), (''type'', JStr ''blacklist''),
                   (''id'', JStr ''AA:BB:CC:DD:EE:03-blacklist'')]"

definition listed_world :: "reply list world" where
  "listed_world =
     drift_world\<lparr>gateway := [ok_reply (JObj []), ok_reply (JArr [device03]),
                              ok_reply (JObj []), ok_reply (JArr [entry03])]\<rparr>"

definition silent_world :: "reply list world" where
  "silent_world =
     drift_world\<lparr>gateway := [ok_reply (JObj []), ok_reply (JArr [device03]),
                              ok_reply (JObj [])]\<rparr>"

text \<open>A reply that the engine reads as a success: \<open>result.get("success", False)\<close> of a
  parsed body is truthy.\<close>

fun accepted :: "reply \<Rightarrow> bool" where
  "accepted (Reply code (JObj body)) = py_truthy (dict_get body ''success'' (JBool False))"
| "accepted _ = False"

text \<open>The validation of the session at the start of an enforcement operation that logs
  the event \<open>e\<close>, and the GET of the filter that follows it.\<close>

definition validated :: "'g gateway \<Rightarrow> event \<Rightarrow> 'g world \<Rightarrow> bool \<times> 'g world" where
  "validated gw e w = ensure_valid_session gw (emit e w)"

definition fetched :: "'g gateway \<Rightarrow> event \<Rightarrow> 'g world \<Rightarrow> reply \<times> 'g world" where
  "fetched gw e w = send_auth gw MacFilterGet (snd (validated gw e w))"

text \<open>
  A connected engine whose session the gateway accepts at the probe and rejects from then
  on; the replies that follow in the script would serve a handshake and the filter
  requests of a retry.
\<close>

definition rejected_world :: "reply list world" where
  "rejected_world =
     \<lparr>session_token = JStr ''tok'', app_token = JStr ''app'', connected = True,
      gateway = [ok_reply (JObj []), rejected_reply, rejected_reply,
                 ok_reply (JObj [(''challenge'', JStr ''c'')]),
                 ok_reply (JObj [(''session_token'', JStr ''new'')]),
                 ok_reply (JArr []), ok_reply (JObj [])],
      mac_addresses = [row01], clock = (\<lambda>n. 100 + n), ticks = 0,
      status_check_counter = 0, events = []\<rparr>"

section \<open>The two shapes of the filter list\<close>













section \<open>Properties of the string operations\<close>

lemma lower_char_idem: "lower_char (lower_char c) = lower_char c"
  by (auto simp: lower_char_def Let_def)

lemma py_lower_idem: "py_lower (py_lower s) = py_lower s"
  by (simp add: py_lower_def lower_char_idem)

lemma lower_upper_char: "lower_char (upper_char c) = lower_char c"
  by (auto simp: lower_char_def upper_char_def Let_def)

lemma py_lower_upper: "py_lower (py_upper s) = py_lower s"
  by (simp add: py_lower_def py_upper_def lower_upper_char)

section \<open>The scan adapter\<close>

lemma scan_lines_inv:
  assumes "\<And>m. length (py_split_on CHR '':'' (py_lower m)) = 6 \<Longrightarrow> P (py_lower m)"
  shows "(\<And>m. m \<in> devices \<Longrightarrow> P m) \<Longrightarrow> m \<in> scan_lines ls devices \<Longrightarrow> P m"
proof (induction ls arbitrary: devices)
  case Nil
  then show ?case by simp
next
  case (Cons line rest)
  let ?mac = "py_lower (py_split line ! 1)"
  show ?case
  proof (cases "CHR '':'' \<in> set line \<and> length (py_split line) \<ge> 2
                 \<and> length (py_split_on CHR '':'' ?mac) = 6")
    case True
    then have "m \<in> scan_lines rest (insert ?mac devices)"
      using Cons.prems(2) by (simp add: Let_def)
    moreover have "P x" if "x \<in> insert ?mac devices" for x
      using that True assms Cons.prems(1) by auto
    ultimately show ?thesis using Cons.IH by blast
  next
    case False
    then have "m \<in> scan_lines rest devices"
      using Cons.prems(2) by (auto simp: Let_def split: if_splits)
    then show ?thesis using Cons.IH Cons.prems(1) by blast
  qed
qed

text \<open>
  C10.  \<open>scan_network\<close> is a total function of what the subprocess did (the \<open>try\<close> of the
  source covers the whole body, so no exception leaves it).  Every MAC it returns is
  lowercase and splits into exactly six groups at the colons; a timeout and any other
  error give the empty set.
\<close>

theorem scan_network_canonical:
  "(\<forall>mac \<in> scan_network r. py_lower mac = mac \<and> length (py_split_on CHR '':'' mac) = 6)
   \<and> scan_network TimeoutExpired = {} \<and> scan_network RunError = {}"
proof -
  have "py_lower mac = mac \<and> length (py_split_on CHR '':'' mac) = 6"
    if "mac \<in> scan_network r" for mac
  proof (cases r)
    case (Completed out)
    with that have "mac \<in> scan_lines (py_splitlines out) {}"
      by (simp add: scan_network_def)
    then show ?thesis
      by (rule scan_lines_inv[rotated 2]) (simp_all add: py_lower_idem)
  qed (use that in \<open>simp_all add: scan_network_def\<close>)
  then show ?thesis by (simp add: scan_network_def)
qed

theorem scan_network_canonical_witness:
  "''aa:bb:cc:dd:ee:01'' \<in> scan_network (Completed ''192.168.1.10 AA:BB:CC:DD:EE:01'')
   \<and> py_lower ''aa:bb:cc:dd:ee:01'' = ''aa:bb:cc:dd:ee:01''
   \<and> length (py_split_on CHR '':'' ''aa:bb:cc:dd:ee:01'') = 6"
proof -
  have m: "''aa:bb:cc:dd:ee:01'' \<in> scan_network (Completed ''192.168.1.10 AA:BB:CC:DD:EE:01'')"
    by code_simp
  from scan_network_canonical[of "Completed ''192.168.1.10 AA:BB:CC:DD:EE:01''"] m
  show ?thesis by blast
qed

section \<open>The registry\<close>

lemma select_row_sql_update:
  "select_row (sql_update mac st t tbl) m =
     map_option (\<lambda>r. if mac_address r = mac then r\<lparr>status := st, last_seen := t\<rparr> else r)
       (select_row tbl m)"
  by (induction tbl) (auto simp: select_row_def sql_update_def)

lemma select_row_append:
  "select_row (tbl @ [r]) m =
     (case select_row tbl m of Some x \<Rightarrow> Some x
      | None \<Rightarrow> if mac_address r = m then Some r else None)"
  by (induction tbl) (auto simp: select_row_def)

lemma select_row_mac: "select_row tbl m = Some r \<Longrightarrow> mac_address r = m"
  by (induction tbl) (auto simp: select_row_def split: if_splits)

text \<open>
  C7.  When the registry has a row \<open>r\<close> for the MAC, \<open>update_mac_status\<close> with a status of
  the enumeration leaves a row that is \<open>r\<close> with only \<open>status\<close> and \<open>last_seen\<close> written:
  \<open>first_seen\<close> and \<open>comment\<close> are the old ones, \<open>last_seen\<close> is the reading of the
  clock taken by the call, and the row of every other MAC is as before.
\<close>

theorem update_mac_status_existing:
  assumes "select_row (mac_addresses w) mac = Some r"
    and "status_check st"
    and "update_mac_status mac st w = (ok, w')"
  shows "ok
    \<and> select_row (mac_addresses w') mac = Some (r\<lparr>status := st, last_seen := clock w (ticks w)\<rparr>)
    \<and> first_seen (the (select_row (mac_addresses w') mac)) = first_seen r
    \<and> comment (the (select_row (mac_addresses w') mac)) = comment r
    \<and> (\<forall>m. m \<noteq> mac \<longrightarrow> select_row (mac_addresses w') m = select_row (mac_addresses w) m)"
proof -
  have w': "w' = emit (DbUpdate mac st)
              (w\<lparr>ticks := Suc (ticks w),
                 mac_addresses := sql_update mac st (clock w (ticks w)) (mac_addresses w)\<rparr>)"
    and ok using assms by (auto simp: update_mac_status_def datetime_now_def)
  have tbl: "mac_addresses w' = sql_update mac st (clock w (ticks w)) (mac_addresses w)"
    by (simp add: w' emit_def)
  have r: "mac_address r = mac" using assms(1) by (rule select_row_mac)
  have "select_row (mac_addresses w') mac
          = Some (r\<lparr>status := st, last_seen := clock w (ticks w)\<rparr>)"
    by (simp add: tbl select_row_sql_update assms(1) r)
  moreover have "select_row (mac_addresses w') m = select_row (mac_addresses w) m"
    if "m \<noteq> mac" for m
  proof (cases "select_row (mac_addresses w) m")
    case None
    then show ?thesis by (simp add: tbl select_row_sql_update)
  next
    case (Some x)
    then have "mac_address x = m" by (rule select_row_mac)
    with Some that show ?thesis by (simp add: tbl select_row_sql_update)
  qed
  ultimately show ?thesis using \<open>ok\<close> by simp
qed

theorem update_mac_status_existing_witness:
  "select_row (mac_addresses offline_world) ''aa:bb:cc:dd:ee:01'' = Some row01
   \<and> status_check ''banned''
   \<and> fst (update_mac_status ''aa:bb:cc:dd:ee:01'' ''banned'' offline_world)
   \<and> select_row (mac_addresses (snd (update_mac_status ''aa:bb:cc:dd:ee:01'' ''banned'' offline_world)))
        ''aa:bb:cc:dd:ee:01''
      = Some \<lparr>mac_address = ''aa:bb:cc:dd:ee:01'', status = ''banned'',
               first_seen = 5, last_seen = 100, comment = ''printer''\<rparr>"
proof -
  have h1: "select_row (mac_addresses offline_world) ''aa:bb:cc:dd:ee:01'' = Some row01"
    by (simp add: select_row_def offline_world_def row01_def)
  have h2: "status_check ''banned''" by (simp add: status_check_def)
  from update_mac_status_existing[OF h1 h2 prod.collapse[symmetric]] h1 h2
  show ?thesis by (simp add: offline_world_def row01_def)
qed

section \<open>Traces of the client\<close>

lemma frame_refl: "frame w w"
  by (simp add: frame_def)

lemma frame_trans: "frame w w1 \<Longrightarrow> frame w1 w2 \<Longrightarrow> frame w w2"
  by (simp add: frame_def)

lemma steps_refl: "steps P w w"
  by (simp add: steps_def frame_refl)

lemma steps_trans: "steps P w w1 \<Longrightarrow> steps P w1 w2 \<Longrightarrow> steps P w w2"
  by (auto simp: steps_def intro: frame_trans)

lemma steps_mono: "steps P w w' \<Longrightarrow> (\<And>e. P e \<Longrightarrow> Q e) \<Longrightarrow> steps Q w w'"
  unfolding steps_def by (auto simp: list_all_iff)

lemma steps_emit: "P e \<Longrightarrow> steps P w (emit e w)"
  by (simp add: steps_def frame_def emit_def)

lemma steps_connected_upd: "steps P w (w\<lparr>connected := b\<rparr>)"
  by (simp add: steps_def frame_def)

lemma steps_token_upd: "steps P w (w\<lparr>session_token := t\<rparr>)"
  by (simp add: steps_def frame_def)

lemma send_steps: "send gw rq w = (rp, w') \<Longrightarrow> steps is_sent w w'"
  by (auto simp: send_def steps_def frame_def split: prod.splits)

lemma send_auth_steps: "send_auth gw mk w = (rp, w') \<Longrightarrow> steps is_sent w w'"
  by (auto simp: send_auth_def steps_refl dest: send_steps split: json.splits)

lemma get_new_session_token_steps:
  "get_new_session_token gw w = (r, w') \<Longrightarrow> steps is_sent w w'"
  unfolding get_new_session_token_def
  by (auto split: if_splits prod.splits reply.splits json.splits option.splits
      dest!: send_steps intro: steps_refl steps_trans steps_token_upd)


lemma is_session_valid_steps:
  "is_session_valid gw w = (r, w') \<Longrightarrow> steps is_sent w w'"
  unfolding is_session_valid_def
  by (auto split: if_splits prod.splits reply.splits json.splits
      dest!: send_auth_steps intro: steps_refl)

lemma ensure_valid_session_steps:
  "ensure_valid_session gw w = (r, w') \<Longrightarrow> steps is_sent w w'"
  unfolding ensure_valid_session_def
  by (auto split: if_splits prod.splits bool.splits
      dest!: is_session_valid_steps get_new_session_token_steps
      intro: steps_trans steps_connected_upd)

lemma is_sent_side: "is_sent e \<Longrightarrow> side m e"
  by (cases e) (simp_all add: side_def)

lemma steps_sent_side: "steps is_sent w w' \<Longrightarrow> steps (side m) w w'"
  by (erule steps_mono) (rule is_sent_side)

lemma add_to_blacklist_steps:
  "add_to_blacklist gw mac w = (r, w') \<Longrightarrow> steps is_sent w w'"
  unfolding add_to_blacklist_def
  by (auto split: if_splits prod.splits reply.splits json.splits option.splits
      dest!: send_auth_steps)

lemma block_device_by_mac_steps:
  assumes "block_device_by_mac gw mac w = (r, w')"
  shows "steps (side mac) w w'"
proof -
  let ?w0 = "emit (CallBlock mac) w"
  have s0: "steps (side mac) w ?w0"
    by (rule steps_emit) (simp add: side_def)
  have "steps is_sent ?w0 w'"
    using assms unfolding block_device_by_mac_def Let_def
    by (auto split: if_splits prod.splits reply.splits json.splits option.splits bool.splits
        dest!: send_auth_steps ensure_valid_session_steps add_to_blacklist_steps
        intro: steps_refl steps_trans)
  then show ?thesis using s0 by (blast intro: steps_trans steps_sent_side)
qed

lemma allow_device_by_mac_steps:
  assumes "allow_device_by_mac gw mac w = (r, w')"
  shows "steps (side mac) w w'"
proof -
  let ?w0 = "emit (CallAllow mac) w"
  have s0: "steps (side mac) w ?w0"
    by (rule steps_emit) (simp add: side_def)
  have "steps is_sent ?w0 w'"
    using assms unfolding allow_device_by_mac_def Let_def
    by (auto split: if_splits prod.splits reply.splits json.splits option.splits bool.splits
        dest!: send_auth_steps ensure_valid_session_steps
        intro: steps_refl steps_trans)
  then show ?thesis using s0 by (blast intro: steps_trans steps_sent_side)
qed

lemma get_network_devices_steps:
  "get_network_devices gw w = (ds, w') \<Longrightarrow> steps is_sent w w'"
  unfolding get_network_devices_def
  by (auto split: if_splits prod.splits reply.splits json.splits bool.splits
      dest!: send_auth_steps ensure_valid_session_steps
      intro: steps_refl steps_trans)

lemma get_device_hostname_steps:
  "get_device_hostname gw mac w = (h, w') \<Longrightarrow> steps is_sent w w'"
  unfolding get_device_hostname_def
  by (auto split: if_splits prod.splits option.splits
      dest!: get_network_devices_steps intro: steps_refl)

section \<open>Traces of the loop's actions\<close>

lemma side_about: "side m e \<Longrightarrow> about m e"
  by (simp add: side_def about_def)

lemma is_sent_about: "is_sent e \<Longrightarrow> about m e"
  by (cases e) (simp_all add: about_def)

lemma steps_events: "steps P w w' \<Longrightarrow> \<exists>es. events w' = events w @ es \<and> list_all P es"
  by (simp add: steps_def)

lemma steps_frame: "steps P w w' \<Longrightarrow> frame w w'"
  by (simp add: steps_def)

lemma steps_table: "steps P w w' \<Longrightarrow> mac_addresses w' = mac_addresses w"
  by (simp add: steps_def frame_def)

lemma send_blocking_alert_steps: "steps (side mac) w (send_blocking_alert gw mac w)"
proof -
  obtain h w1 where g: "get_device_hostname gw mac w = (h, w1)" by fastforce
  then have "steps (side mac) w w1"
    by (blast intro: steps_sent_side get_device_hostname_steps)
  moreover have "steps (side mac) w1 (emit (BlockingAlert mac) w1)"
    by (rule steps_emit) (simp add: side_def)
  ultimately show ?thesis
    by (simp add: send_blocking_alert_def g) (rule steps_trans)
qed

lemma send_slack_alert_events:
  "\<exists>es. events (send_slack_alert gw mac st w) = events w @ es @ [NewDeviceAlert mac st]
        \<and> list_all is_sent es"
  "frame w (send_slack_alert gw mac st w)"
proof -
  obtain h w1 where g: "get_device_hostname gw mac w = (h, w1)" by fastforce
  then have s: "steps is_sent w w1" by (rule get_device_hostname_steps)
  show "\<exists>es. events (send_slack_alert gw mac st w) = events w @ es @ [NewDeviceAlert mac st]
        \<and> list_all is_sent es"
    using steps_events[OF s] by (auto simp: send_slack_alert_def g emit_def)
  show "frame w (send_slack_alert gw mac st w)"
    using steps_frame[OF s] by (simp add: send_slack_alert_def g emit_def frame_def)
qed

lemma block_mac_events:
  "\<exists>es. events (block_mac gw mac w) = events w @ BlockRequested mac # es
        \<and> list_all (side mac) es"
  "frame w (block_mac gw mac w)"
proof -
  let ?w0 = "emit (BlockRequested mac) w"
  have e0: "events ?w0 = events w @ [BlockRequested mac]" and f0: "frame w ?w0"
    by (simp_all add: emit_def frame_def)
  have s: "steps (side mac) ?w0 (block_mac gw mac w)"
  proof (cases "connected ?w0")
    case False
    then show ?thesis by (simp add: block_mac_def Let_def steps_refl)
  next
    case True
    obtain r w1 where b: "block_device_by_mac gw mac ?w0 = (r, w1)" by fastforce
    then have s1: "steps (side mac) ?w0 w1" by (rule block_device_by_mac_steps)
    show ?thesis
    proof (cases r)
      case True
      with \<open>connected ?w0\<close> b have "block_mac gw mac w = send_blocking_alert gw mac w1"
        by (simp add: block_mac_def Let_def)
      then show ?thesis using s1 send_blocking_alert_steps[where mac=mac and w=w1 and gw=gw]
        by (auto intro: steps_trans)
    next
      case False
      with \<open>connected ?w0\<close> b have "block_mac gw mac w = w1"
        by (simp add: block_mac_def Let_def)
      then show ?thesis using s1 by simp
    qed
  qed
  show "\<exists>es. events (block_mac gw mac w) = events w @ BlockRequested mac # es
        \<and> list_all (side mac) es"
    using steps_events[OF s] e0 by auto
  show "frame w (block_mac gw mac w)"
    using steps_frame[OF s] f0 by (rule frame_trans[rotated])
qed

lemma block_mac_steps: "steps (side mac) w (block_mac gw mac w)"
  using block_mac_events[where gw=gw and mac=mac and w=w] by (auto simp: steps_def side_def)

lemma allow_mac_steps: "steps (side mac) w (allow_mac gw mac w)"
proof -
  let ?w0 = "emit (AllowRequested mac) w"
  have s0: "steps (side mac) w ?w0"
    by (rule steps_emit) (simp add: side_def)
  have "steps (side mac) ?w0 (snd (allow_device_by_mac gw mac ?w0))"
    by (rule allow_device_by_mac_steps[OF prod.collapse[symmetric]])
  then show ?thesis using s0
    by (auto simp: allow_mac_def Let_def intro: steps_trans)
qed

section \<open>Registry writes\<close>

lemma select_row_None_iff: "select_row tbl m = None \<longleftrightarrow> m \<notin> mac_address ` set tbl"
  by (auto simp: select_row_def find_None_iff)

lemma known_macs_fold:
  "distinct (map mac_address tbl) \<Longrightarrow>
   fold (\<lambda>row m. m(mac_address row \<mapsto> status row)) tbl acc m =
     (case select_row tbl m of Some r \<Rightarrow> Some (status r) | None \<Rightarrow> acc m)"
proof (induction tbl arbitrary: acc)
  case Nil
  then show ?case by (simp add: select_row_def)
next
  case (Cons r rs)
  show ?case
  proof (cases "mac_address r = m")
    case True
    with Cons.prems have "select_row rs m = None"
      by (auto simp: select_row_None_iff)
    with True Cons show ?thesis by (simp add: select_row_def)
  next
    case False
    with Cons show ?thesis by (simp add: select_row_def)
  qed
qed

lemma known_macs_select:
  "primary_key tbl \<Longrightarrow> known_macs tbl m = map_option status (select_row tbl m)"
  by (simp add: known_macs_def primary_key_def known_macs_fold split: option.splits)

lemma update_mac_status_cases:
  assumes "update_mac_status mac st w = (ok, w')"
  shows "(\<not> ok \<and> \<not> status_check st \<and> mac_addresses w' = mac_addresses w
            \<and> events w' = events w)
       \<or> (ok \<and> status_check st \<and> select_row (mac_addresses w) mac \<noteq> None
            \<and> mac_addresses w' = sql_update mac st (clock w (ticks w)) (mac_addresses w)
            \<and> events w' = events w @ [DbUpdate mac st])
       \<or> (ok \<and> status_check st \<and> select_row (mac_addresses w) mac = None
            \<and> mac_addresses w' = mac_addresses w @
                  [\<lparr>mac_address = mac, status = st, first_seen = clock w (ticks w),
                    last_seen = clock w (Suc (ticks w)), comment = ''''\<rparr>]
            \<and> events w' = events w @ [DbInsert mac st])"
  using assms
  by (auto simp: update_mac_status_def datetime_now_def emit_def split: option.splits if_splits)

lemma update_mac_status_other:
  assumes "update_mac_status mac st w = (ok, w')" and "m \<noteq> mac"
  shows "select_row (mac_addresses w') m = select_row (mac_addresses w) m"
proof -
  have "select_row (sql_update mac st t tbl) m = select_row tbl m" for t tbl
  proof (cases "select_row tbl m")
    case None
    then show ?thesis by (simp add: select_row_sql_update)
  next
    case (Some x)
    then have "mac_address x = m" by (rule select_row_mac)
    with Some assms(2) show ?thesis by (simp add: select_row_sql_update)
  qed
  moreover have "select_row (tbl @ [r]) m = select_row tbl m" if "mac_address r = mac" for tbl r
    using that assms(2) by (simp add: select_row_append split: option.splits)
  ultimately show ?thesis
    using update_mac_status_cases[OF assms(1)] by auto
qed

lemma update_mac_status_self:
  assumes "update_mac_status mac st w = (ok, w')" and ok
  shows "map_option status (select_row (mac_addresses w') mac) = Some st"
proof -
  have "map_option status (select_row (sql_update mac st t tbl) mac) = Some st"
    if "select_row tbl mac \<noteq> None" for t tbl
  proof -
    from that obtain r where r: "select_row tbl mac = Some r" by blast
    then have "mac_address r = mac" by (rule select_row_mac)
    with r show ?thesis by (simp add: select_row_sql_update)
  qed
  moreover have "map_option status (select_row (tbl @ [r]) mac) = Some st"
    if "select_row tbl mac = None" "mac_address r = mac" "status r = st" for tbl r
    using that by (simp add: select_row_append)
  ultimately show ?thesis
    using update_mac_status_cases[OF assms(1)] assms(2) by auto
qed

lemma update_mac_status_failed:
  "update_mac_status mac st w = (False, w') \<Longrightarrow> mac_addresses w' = mac_addresses w"
  by (drule update_mac_status_cases) auto

lemma update_mac_status_ok:
  "status_check st \<Longrightarrow> fst (update_mac_status mac st w)"
  using update_mac_status_cases[OF prod.collapse[symmetric], of mac st w] by auto

lemma update_mac_status_primary_key:
  assumes "update_mac_status mac st w = (ok, w')" and "primary_key (mac_addresses w)"
  shows "primary_key (mac_addresses w')"
proof -
  have "map mac_address (sql_update mac st t tbl) = map mac_address tbl" for t tbl
    by (induction tbl) (auto simp: sql_update_def)
  then show ?thesis
    using update_mac_status_cases[OF assms(1)] assms(2)
    by (auto simp: primary_key_def select_row_None_iff)
qed

lemma update_mac_status_about:
  assumes "update_mac_status mac st w = (ok, w')"
  shows "\<exists>es. events w' = events w @ es \<and> list_all (about mac) es"
  using update_mac_status_cases[OF assms] by (auto simp: about_def)

section \<open>The classification loop keeps every status\<close>

lemma status_kept_refl: "status_kept tbl tbl"
  by (simp add: status_kept_def)

lemma status_kept_update:
  assumes k: "status_kept tbl0 (mac_addresses w)"
    and u: "update_mac_status mac st w = (ok, w')"
    and st: "case select_row tbl0 mac of Some r \<Rightarrow> st = status r | None \<Rightarrow> st = ''quarantine''"
  shows "status_kept tbl0 (mac_addresses w')"
proof (cases ok)
  case False
  with u k show ?thesis by (simp add: update_mac_status_failed)
next
  case True
  have self: "map_option status (select_row (mac_addresses w') mac) = Some st"
    using u True by (rule update_mac_status_self)
  have other: "select_row (mac_addresses w') m = select_row (mac_addresses w) m"
    if "m \<noteq> mac" for m using u that by (rule update_mac_status_other)
  have "map_option status (select_row (mac_addresses w') m) = Some (status r)"
    if "select_row tbl0 m = Some r" for m r
  proof (cases "m = mac")
    case True
    with self st that show ?thesis by simp
  next
    case False
    with other[OF False] k that show ?thesis by (simp add: status_kept_def)
  qed
  moreover have "map_option status (select_row (mac_addresses w') m) \<in> {None, Some ''quarantine''}"
    if "select_row tbl0 m = None" for m
  proof (cases "m = mac")
    case True
    with self st that show ?thesis by simp
  next
    case False
    with other[OF False] k that show ?thesis by (simp add: status_kept_def)
  qed
  ultimately show ?thesis by (simp add: status_kept_def)
qed

lemma process_mac_status_kept:
  assumes kn: "\<And>m. known m = map_option status (select_row tbl0 m)"
    and k: "status_kept tbl0 (mac_addresses w)"
    and p: "process_mac gw known mac w = (ok, w')"
  shows "status_kept tbl0 (mac_addresses w')"
proof (cases "known mac")
  case None
  then have r0: "select_row tbl0 mac = None" using kn[of mac] by simp
  obtain ok1 w1 where u: "update_mac_status mac ''quarantine'' w = (ok1, w1)" by fastforce
  have k1: "status_kept tbl0 (mac_addresses w1)"
    using k u by (rule status_kept_update) (simp add: r0)
  show ?thesis
  proof (cases ok1)
    case False
    with p u None k1 show ?thesis by (simp add: process_mac_def)
  next
    case True
    with p u None have "w' = send_slack_alert gw mac ''quarantine'' (block_mac gw mac w1)"
      by (auto simp: process_mac_def)
    then have "mac_addresses w' = mac_addresses w1"
      using send_slack_alert_events(2)[where gw=gw and mac=mac and st="''quarantine''"
              and w="block_mac gw mac w1"]
            block_mac_events(2)[where gw=gw and mac=mac and w=w1]
      by (simp add: frame_def)
    with k1 show ?thesis by simp
  qed
next
  case (Some st)
  then obtain r where r0: "select_row tbl0 mac = Some r" and st: "st = status r"
    using kn[of mac] by auto
  define w1 where "w1 = (if st = ''banned'' then block_mac gw mac w
                     else if st = ''quarantine'' then block_mac gw mac w
                     else if st = ''authorized'' then allow_mac gw mac w
                     else w)"
  have t1: "mac_addresses w1 = mac_addresses w"
    using steps_table[OF block_mac_steps[where gw=gw and mac=mac and w=w]]
          steps_table[OF allow_mac_steps[where gw=gw and mac=mac and w=w]]
    by (simp add: w1_def)
  show ?thesis
  proof (cases "st = []")
    case True
    with p Some have "w' = w1" by (simp add: process_mac_def w1_def Let_def)
    with k t1 show ?thesis by simp
  next
    case False
    with p Some have u: "update_mac_status mac st w1 = (ok, w')"
      by (simp add: process_mac_def w1_def Let_def)
    from k t1 have "status_kept tbl0 (mac_addresses w1)" by simp
    then show ?thesis using u by (rule status_kept_update) (simp add: r0 st)
  qed
qed

lemma process_macs_status_kept:
  assumes kn: "\<And>m. known m = map_option status (select_row tbl0 m)"
  shows "status_kept tbl0 (mac_addresses w) \<Longrightarrow> process_macs gw known macs w = (ok, w')
         \<Longrightarrow> status_kept tbl0 (mac_addresses w')"
proof (induction macs arbitrary: w)
  case Nil
  then show ?case by simp
next
  case (Cons mac rest)
  obtain ok1 w1 where p: "process_mac gw known mac w = (ok1, w1)" by fastforce
  have k1: "status_kept tbl0 (mac_addresses w1)"
    using kn Cons.prems(1) p by (rule process_mac_status_kept)
  show ?case
  proof (cases ok1)
    case True
    with Cons.prems(2) p have "process_macs gw known rest w1 = (ok, w')" by simp
    with k1 show ?thesis by (rule Cons.IH)
  next
    case False
    with Cons.prems(2) p k1 show ?thesis by simp
  qed
qed

section \<open>Growth of the trace\<close>

lemma grows_refl: "grows P w w"
  by (simp add: grows_def)

lemma grows_trans: "grows P w w1 \<Longrightarrow> grows P w1 w2 \<Longrightarrow> grows P w w2"
  by (auto simp: grows_def)

lemma grows_mono: "grows P w w' \<Longrightarrow> (\<And>e. P e \<Longrightarrow> Q e) \<Longrightarrow> grows Q w w'"
  unfolding grows_def by (auto simp: list_all_iff)

lemma steps_grows: "steps P w w' \<Longrightarrow> grows P w w'"
  by (simp add: steps_def grows_def)

lemma grows_counter_upd: "grows P w (w\<lparr>status_check_counter := n\<rparr>)"
  by (simp add: grows_def)

lemma enforcing_write_ok: "enforcing e \<Longrightarrow> write_ok known e"
  by (cases e) (simp_all add: write_ok_def)

lemma side_write_ok: "side m e \<Longrightarrow> write_ok known e"
  by (simp add: side_def enforcing_write_ok)

lemma is_sent_enforcing: "is_sent e \<Longrightarrow> enforcing e"
  by (cases e) simp_all

lemma side_enforcing: "side m e \<Longrightarrow> enforcing e"
  by (simp add: side_def)

section \<open>The drift check\<close>

lemma drift_loop_steps: "steps enforcing w (drift_loop gw states rows w)"
proof (induction rows arbitrary: w)
  case Nil
  show ?case by (simp add: steps_refl)
next
  case (Cons row rows)
  obtain mac db_status where row: "row = (mac, db_status)" by (cases row)
  let ?w0 = "emit (DriftWarning mac) w"
  have w0: "steps enforcing w ?w0" by (rule steps_emit) simp
  have b: "steps enforcing w (snd (block_device_by_mac gw mac ?w0))"
    using block_device_by_mac_steps[where gw=gw and mac=mac and w="?w0", OF prod.collapse[symmetric]] w0
    by (blast intro: steps_trans steps_mono side_enforcing)
  have a: "steps enforcing w (snd (allow_device_by_mac gw mac ?w0))"
    using allow_device_by_mac_steps[where gw=gw and mac=mac and w="?w0", OF prod.collapse[symmetric]] w0
    by (blast intro: steps_trans steps_mono side_enforcing)
  show ?case
    unfolding row drift_loop.simps
    using Cons.IH a b
    by (auto split: option.splits if_splits intro: steps_trans simp del: drift_loop.simps)
qed

lemma check_status_changes_steps: "steps enforcing w (check_status_changes gw w)"
proof -
  obtain ds w1 where g: "get_network_devices gw w = (ds, w1)" by fastforce
  then have s1: "steps enforcing w w1"
    by (blast intro: get_network_devices_steps steps_mono is_sent_enforcing)
  show ?thesis
    using s1 drift_loop_steps[where w=w1 and gw=gw]
    by (auto simp: check_status_changes_def Let_def g steps_refl
        split: option.splits intro: steps_trans)
qed

section \<open>One iteration of the main loop\<close>

lemma update_mac_status_grows:
  assumes "update_mac_status mac st w = (ok, w')"
  shows "grows (\<lambda>e. e = DbInsert mac st \<or> e = DbUpdate mac st) w w'"
  using update_mac_status_cases[OF assms] by (auto simp: grows_def)

lemma send_slack_alert_grows:
  "grows (\<lambda>e. is_sent e \<or> e = NewDeviceAlert mac st) w (send_slack_alert gw mac st w)"
  using send_slack_alert_events(1)[where gw=gw and mac=mac and st=st and w=w]
  by (auto simp: grows_def list_all_iff)

lemma process_mac_grows:
  assumes p: "process_mac gw known mac w = (ok, w')"
  shows "grows (\<lambda>e. about mac e \<and> write_ok known e) w w'"
proof (cases "known mac")
  case None
  obtain ok1 w1 where u: "update_mac_status mac ''quarantine'' w = (ok1, w1)" by fastforce
  have g1: "grows (\<lambda>e. about mac e \<and> write_ok known e) w w1"
    using update_mac_status_grows[OF u]
    by (rule grows_mono) (auto simp: about_def write_ok_def None)
  show ?thesis
  proof (cases ok1)
    case False
    with p u None g1 show ?thesis by (simp add: process_mac_def)
  next
    case True
    let ?w2 = "block_mac gw mac w1"
    from True p u None have w': "w' = send_slack_alert gw mac ''quarantine'' ?w2"
      by (auto simp: process_mac_def)
    have g2: "grows (\<lambda>e. about mac e \<and> write_ok known e) w1 ?w2"
      using steps_grows[OF block_mac_steps[where gw=gw and mac=mac and w=w1]]
      by (rule grows_mono) (simp add: side_about side_write_ok)
    have g3: "grows (\<lambda>e. about mac e \<and> write_ok known e) ?w2 w'"
      unfolding w'
    proof (rule grows_mono[OF send_slack_alert_grows])
      fix e assume "is_sent e \<or> e = NewDeviceAlert mac ''quarantine''"
      then show "about mac e \<and> write_ok known e"
      proof
        assume "is_sent e"
        then show ?thesis by (simp add: is_sent_about is_sent_enforcing enforcing_write_ok)
      next
        assume "e = NewDeviceAlert mac ''quarantine''"
        then show ?thesis by (simp add: about_def write_ok_def)
      qed
    qed
    from g1 g2 g3 show ?thesis by (blast intro: grows_trans)
  qed
next
  case (Some st)
  define w1 where "w1 = (if st = ''banned'' then block_mac gw mac w
                     else if st = ''quarantine'' then block_mac gw mac w
                     else if st = ''authorized'' then allow_mac gw mac w
                     else w)"
  have "steps (side mac) w w1"
    using block_mac_steps[where gw=gw and mac=mac and w=w]
          allow_mac_steps[where gw=gw and mac=mac and w=w]
    by (simp add: w1_def steps_refl)
  then have "grows (side mac) w w1" by (rule steps_grows)
  then have g1: "grows (\<lambda>e. about mac e \<and> write_ok known e) w w1"
    by (rule grows_mono) (simp add: side_about side_write_ok)
  show ?thesis
  proof (cases "st = []")
    case True
    with p Some have "w' = w1" by (simp add: process_mac_def w1_def Let_def)
    with g1 show ?thesis by simp
  next
    case False
    with p Some have u: "update_mac_status mac st w1 = (ok, w')"
      by (simp add: process_mac_def w1_def Let_def)
    have "grows (\<lambda>e. about mac e \<and> write_ok known e) w1 w'"
      using update_mac_status_grows[OF u]
      by (rule grows_mono) (auto simp: about_def write_ok_def Some)
    with g1 show ?thesis by (rule grows_trans)
  qed
qed

lemma process_macs_grows:
  "process_macs gw known macs w = (ok, w') \<Longrightarrow>
   grows (\<lambda>e. (subject e = None \<or> subject e \<in> Some ` set macs) \<and> write_ok known e) w w'"
proof (induction macs arbitrary: w)
  case Nil
  then show ?case by (simp add: grows_refl)
next
  case (Cons mac rest)
  let ?P = "\<lambda>e. (subject e = None \<or> subject e \<in> Some ` set (mac # rest)) \<and> write_ok known e"
  obtain ok1 w1 where p: "process_mac gw known mac w = (ok1, w1)" by fastforce
  have g1: "grows ?P w w1"
    by (rule grows_mono[OF process_mac_grows[OF p]]) (auto simp: about_def)
  show ?case
  proof (cases ok1)
    case True
    with Cons.prems p have "process_macs gw known rest w1 = (ok, w')" by simp
    then have "grows ?P w1 w'"
      by (rule grows_mono[OF Cons.IH]) auto
    with g1 show ?thesis by (rule grows_trans)
  next
    case False
    with Cons.prems p g1 show ?thesis by simp
  qed
qed

lemma main_cycle_status_kept:
  assumes "primary_key (mac_addresses w)"
  shows "status_kept (mac_addresses w) (mac_addresses (main_cycle gw proc visit w))"
proof (cases "scan_network proc = {}")
  case True
  then show ?thesis by (simp add: main_cycle_def status_kept_refl)
next
  case False
  let ?known = "known_macs (mac_addresses w)"
  obtain ok w1 where p: "process_macs gw ?known (visit (scan_network proc)) w = (ok, w1)"
    by fastforce
  have k1: "status_kept (mac_addresses w) (mac_addresses w1)"
    by (rule process_macs_status_kept[OF _ status_kept_refl p])
       (simp add: known_macs_select assms)
  show ?thesis
  proof (cases ok)
    case False
    with \<open>scan_network proc \<noteq> {}\<close> p k1 show ?thesis by (simp add: main_cycle_def Let_def)
  next
    case True
    let ?w2 = "w1\<lparr>status_check_counter := status_check_counter w1 + 1\<rparr>"
    have "mac_addresses (check_status_changes gw ?w2) = mac_addresses w1"
      using steps_table[OF check_status_changes_steps[where gw=gw and w="?w2"]] by simp
    with True \<open>scan_network proc \<noteq> {}\<close> p k1 show ?thesis
      by (simp add: main_cycle_def Let_def)
  qed
qed

lemma main_cycle_writes:
  "grows (write_ok (known_macs (mac_addresses w))) w (main_cycle gw proc visit w)"
proof (cases "scan_network proc = {}")
  case True
  then show ?thesis by (simp add: main_cycle_def grows_refl)
next
  case False
  let ?known = "known_macs (mac_addresses w)"
  obtain ok w1 where p: "process_macs gw ?known (visit (scan_network proc)) w = (ok, w1)"
    by fastforce
  have g1: "grows (write_ok ?known) w w1"
    by (rule grows_mono[OF process_macs_grows[OF p]]) simp
  show ?thesis
  proof (cases ok)
    case False
    with \<open>scan_network proc \<noteq> {}\<close> p g1 show ?thesis by (simp add: main_cycle_def Let_def)
  next
    case True
    let ?w2 = "w1\<lparr>status_check_counter := status_check_counter w1 + 1\<rparr>"
    have g2: "grows (write_ok ?known) w1 ?w2" by (rule grows_counter_upd)
    have g3: "grows (write_ok ?known) ?w2 (check_status_changes gw ?w2)"
      by (rule grows_mono[OF steps_grows[OF check_status_changes_steps]])
         (rule enforcing_write_ok)
    have g4: "grows (write_ok ?known) (check_status_changes gw ?w2)
                ((check_status_changes gw ?w2)\<lparr>status_check_counter := 0\<rparr>)"
      by (rule grows_counter_upd)
    from g1 g2 g3 g4 have "grows (write_ok ?known) w ?w2"
      and "grows (write_ok ?known) w ((check_status_changes gw ?w2)\<lparr>status_check_counter := 0\<rparr>)"
      by (blast intro: grows_trans)+
    with True \<open>scan_network proc \<noteq> {}\<close> p show ?thesis
      by (simp add: main_cycle_def Let_def)
  qed
qed

text \<open>
  C8.  Over one iteration of the loop, classification, refresh of \<open>last_seen\<close> and drift
  check included: a MAC that has a row at the start has a row with the same status at
  the end; a MAC that has none has no row or a quarantine row at the end; and every
  registry write of the iteration stores the status read at the start for a MAC that
  had a row, and \<open>quarantine\<close> for a MAC that had none.
\<close>

theorem main_cycle_keeps_status:
  assumes "primary_key (mac_addresses w)"
  shows "(\<forall>m r. select_row (mac_addresses w) m = Some r \<longrightarrow>
            get_mac_status m (main_cycle gw proc visit w) = Some (status r))
       \<and> (\<forall>m. select_row (mac_addresses w) m = None \<longrightarrow>
            get_mac_status m (main_cycle gw proc visit w) \<in> {None, Some ''quarantine''})
       \<and> (\<exists>es. events (main_cycle gw proc visit w) = events w @ es
            \<and> (\<forall>e \<in> set es. \<forall>m s. written e = Some (m, s) \<longrightarrow>
                  s = (case get_mac_status m w of Some s0 \<Rightarrow> s0 | None \<Rightarrow> ''quarantine'')))"
proof -
  have kn: "known_macs (mac_addresses w) m = get_mac_status m w" for m
    by (simp add: known_macs_select assms get_mac_status_def)
  from main_cycle_writes[of w gw proc visit]
  obtain es where es: "events (main_cycle gw proc visit w) = events w @ es"
    and ok: "list_all (write_ok (known_macs (mac_addresses w))) es"
    by (auto simp: grows_def)
  have "s = (case get_mac_status m w of Some s0 \<Rightarrow> s0 | None \<Rightarrow> ''quarantine'')"
    if "e \<in> set es" "written e = Some (m, s)" for e m s
    using ok that by (auto simp: list_all_iff write_ok_def kn)
  with es main_cycle_status_kept[OF assms, of gw proc visit] show ?thesis
    by (auto simp: status_kept_def get_mac_status_def)
qed

text \<open>
  C2.  When the scan gives the empty set the iteration changes nothing at all: the
  registry (every field of every row), the trace (no classification, no registry write,
  no request) and the counter of the drift check are as before.  A timeout and an error
  of the scan are such iterations.
\<close>

theorem empty_scan_changes_nothing:
  "(scan_network proc = {} \<longrightarrow> main_cycle gw proc visit w = w)
   \<and> main_cycle gw TimeoutExpired visit w = w
   \<and> main_cycle gw RunError visit w = w"
  by (simp add: main_cycle_def scan_network_def)

theorem empty_scan_changes_nothing_witness:
  "scan_network (Completed '''') = {}
   \<and> main_cycle silent (Completed '''') (\<lambda>S. []) offline_world = offline_world"
proof -
  have h: "scan_network (Completed '''') = {}"
    by (simp add: scan_network_def py_splitlines_def)
  from empty_scan_changes_nothing[of "Completed ''''" silent "\<lambda>S. []" offline_world] h
  show ?thesis by blast
qed

theorem main_cycle_keeps_status_witness:
  "primary_key (mac_addresses offline_world)
   \<and> get_mac_status ''aa:bb:cc:dd:ee:01''
        (main_cycle silent (Completed ''192.168.1.10 AA:BB:CC:DD:EE:01'')
           (\<lambda>S. [''aa:bb:cc:dd:ee:01'']) offline_world) = Some ''authorized''
   \<and> get_mac_status ''aa:bb:cc:dd:ee:02''
        (main_cycle silent (Completed ''192.168.1.10 AA:BB:CC:DD:EE:01'')
           (\<lambda>S. [''aa:bb:cc:dd:ee:01'']) offline_world) \<in> {None, Some ''quarantine''}"
proof -
  have pk: "primary_key (mac_addresses offline_world)"
    by (simp add: primary_key_def offline_world_def)
  have r1: "select_row (mac_addresses offline_world) ''aa:bb:cc:dd:ee:01'' = Some row01"
    by (simp add: select_row_def offline_world_def row01_def)
  have r2: "select_row (mac_addresses offline_world) ''aa:bb:cc:dd:ee:02'' = None"
    by (simp add: select_row_def offline_world_def row01_def)
  have s: "status row01 = ''authorized''" by (simp add: row01_def)
  note t = main_cycle_keeps_status[OF pk, of silent "Completed ''192.168.1.10 AA:BB:CC:DD:EE:01''"
         "\<lambda>S. [''aa:bb:cc:dd:ee:01'']"]
  from t r1 s have a: "get_mac_status ''aa:bb:cc:dd:ee:01''
        (main_cycle silent (Completed ''192.168.1.10 AA:BB:CC:DD:EE:01'')
           (\<lambda>S. [''aa:bb:cc:dd:ee:01'']) offline_world) = Some ''authorized''"
    by (elim conjE allE[where x="''aa:bb:cc:dd:ee:01''"]) auto
  from t r2 have b: "get_mac_status ''aa:bb:cc:dd:ee:02''
        (main_cycle silent (Completed ''192.168.1.10 AA:BB:CC:DD:EE:01'')
           (\<lambda>S. [''aa:bb:cc:dd:ee:01'']) offline_world) \<in> {None, Some ''quarantine''}"
    by blast
  from pk a b show ?thesis by simp
qed

section \<open>Classification of a new device\<close>

lemma enforcing_not_classifies: "enforcing e \<Longrightarrow> \<not> classifies m e"
  by (auto simp: classifies_def)

lemma other_subject_not_classifies: "subject e \<noteq> Some m \<Longrightarrow> \<not> classifies m e"
  by (auto simp: classifies_def)

lemma process_macs_append:
  "process_macs gw known (xs @ ys) w =
     (case process_macs gw known xs w of
        (False, w1) \<Rightarrow> (False, w1)
      | (True, w1) \<Rightarrow> process_macs gw known ys w1)"
  by (induction xs arbitrary: w) (auto split: prod.splits bool.splits)

lemma process_mac_other:
  assumes p: "process_mac gw known mac w = (ok, w')" and "m \<noteq> mac"
  shows "select_row (mac_addresses w') m = select_row (mac_addresses w) m"
proof (cases "known mac")
  case None
  obtain ok1 w1 where u: "update_mac_status mac ''quarantine'' w = (ok1, w1)" by fastforce
  have o: "select_row (mac_addresses w1) m = select_row (mac_addresses w) m"
    using u assms(2) by (rule update_mac_status_other)
  show ?thesis
  proof (cases ok1)
    case False
    with p u None o show ?thesis by (simp add: process_mac_def)
  next
    case True
    with p u None have "w' = send_slack_alert gw mac ''quarantine'' (block_mac gw mac w1)"
      by (auto simp: process_mac_def)
    then have "mac_addresses w' = mac_addresses w1"
      using send_slack_alert_events(2)[where gw=gw and mac=mac and st="''quarantine''"
              and w="block_mac gw mac w1"]
            block_mac_events(2)[where gw=gw and mac=mac and w=w1]
      by (simp add: frame_def)
    with o show ?thesis by simp
  qed
next
  case (Some st)
  define w1 where "w1 = (if st = ''banned'' then block_mac gw mac w
                     else if st = ''quarantine'' then block_mac gw mac w
                     else if st = ''authorized'' then allow_mac gw mac w
                     else w)"
  have t1: "mac_addresses w1 = mac_addresses w"
    using steps_table[OF block_mac_steps[where gw=gw and mac=mac and w=w]]
          steps_table[OF allow_mac_steps[where gw=gw and mac=mac and w=w]]
    by (simp add: w1_def)
  show ?thesis
  proof (cases "st = []")
    case True
    with p Some have "w' = w1" by (simp add: process_mac_def w1_def Let_def)
    with t1 show ?thesis by simp
  next
    case False
    with p Some have u: "update_mac_status mac st w1 = (ok, w')"
      by (simp add: process_mac_def w1_def Let_def)
    from update_mac_status_other[OF u assms(2)] t1 show ?thesis by simp
  qed
qed

lemma process_macs_other:
  "m \<notin> set macs \<Longrightarrow> process_macs gw known macs w = (ok, w') \<Longrightarrow>
   select_row (mac_addresses w') m = select_row (mac_addresses w) m"
proof (induction macs arbitrary: w)
  case Nil
  then show ?case by simp
next
  case (Cons mac rest)
  obtain ok1 w1 where p: "process_mac gw known mac w = (ok1, w1)" by fastforce
  from Cons.prems(1) have ne: "m \<noteq> mac" and nin: "m \<notin> set rest" by auto
  have o: "select_row (mac_addresses w1) m = select_row (mac_addresses w) m"
    using p ne by (rule process_mac_other)
  show ?case
  proof (cases ok1)
    case True
    with Cons.prems(2) p have "process_macs gw known rest w1 = (ok, w')" by simp
    from Cons.IH[OF nin this] o show ?thesis by simp
  next
    case False
    with Cons.prems(2) p o show ?thesis by simp
  qed
qed

lemma process_macs_quiet:
  assumes "m \<notin> set macs" and "process_macs gw known macs w = (ok, w')"
  shows "grows (\<lambda>e. \<not> classifies m e) w w'"
proof (rule grows_mono[OF process_macs_grows[OF assms(2)]])
  fix e
  assume "(subject e = None \<or> subject e \<in> Some ` set macs) \<and> write_ok known e"
  with assms(1) have "subject e \<noteq> Some m" by auto
  then show "\<not> classifies m e" by (rule other_subject_not_classifies)
qed

lemma process_mac_ok:
  assumes "\<And>s. known mac = Some s \<Longrightarrow> status_check s"
  shows "fst (process_mac gw known mac w)"
proof (cases "known mac")
  case None
  have "fst (update_mac_status mac ''quarantine'' w)"
    by (rule update_mac_status_ok) (simp add: status_check_def)
  with None show ?thesis
    by (auto simp: process_mac_def split: prod.splits bool.splits)
next
  case (Some st)
  then have "status_check st" by (rule assms)
  then have "fst (update_mac_status mac st w1)" for w1 :: "'a world"
    by (rule update_mac_status_ok)
  with Some show ?thesis by (simp add: process_mac_def Let_def)
qed

lemma process_macs_ok:
  assumes "\<And>m s. known m = Some s \<Longrightarrow> status_check s"
  shows "fst (process_macs gw known macs w)"
proof (induction macs arbitrary: w)
  case Nil
  show ?case by simp
next
  case (Cons mac rest)
  have "fst (process_mac gw known mac w)" by (rule process_mac_ok) (rule assms)
  with Cons show ?case by (auto split: prod.splits bool.splits)
qed

lemma known_macs_checked:
  assumes "primary_key tbl" and "status_constraint tbl" and "known_macs tbl m = Some s"
  shows "status_check s"
proof -
  from assms(1,3) obtain r where r: "select_row tbl m = Some r" and s: "s = status r"
    by (auto simp: known_macs_select)
  from r have "r \<in> set tbl" by (auto simp: select_row_def find_Some_iff)
  with assms(2) s show ?thesis by (simp add: status_constraint_def list_all_iff)
qed

lemma process_mac_new:
  assumes kn: "known m = None" and row: "select_row (mac_addresses w) m = None"
    and p: "process_mac gw known m w = (ok, w')"
  shows "ok \<and> get_mac_status m w' = Some ''quarantine''
       \<and> (\<exists>es. events w' = events w @ [DbInsert m ''quarantine'', BlockRequested m] @ es
                  @ [NewDeviceAlert m ''quarantine'']
              \<and> list_all enforcing es)"
proof -
  obtain ok1 w1 where u: "update_mac_status m ''quarantine'' w = (ok1, w1)" by fastforce
  have q: "status_check ''quarantine''" by (simp add: status_check_def)
  from update_mac_status_cases[OF u] row q
  have ok1 and e1: "events w1 = events w @ [DbInsert m ''quarantine'']" by auto
  have s1: "map_option status (select_row (mac_addresses w1) m) = Some ''quarantine''"
    using u \<open>ok1\<close> by (rule update_mac_status_self)
  let ?w2 = "block_mac gw m w1"
  from \<open>ok1\<close> p u kn have ok and w': "w' = send_slack_alert gw m ''quarantine'' ?w2"
    by (auto simp: process_mac_def)
  from block_mac_events[where gw=gw and mac=m and w=w1]
  obtain es2 where e2: "events ?w2 = events w1 @ BlockRequested m # es2"
    and l2: "list_all (side m) es2" and f2: "frame w1 ?w2" by blast
  from send_slack_alert_events[where gw=gw and mac=m and st="''quarantine''" and w="?w2"]
  obtain es3 where e3: "events w' = events ?w2 @ es3 @ [NewDeviceAlert m ''quarantine'']"
    and l3: "list_all is_sent es3" and f3: "frame ?w2 w'" unfolding w' by blast
  have "mac_addresses w' = mac_addresses w1" using f2 f3 by (simp add: frame_def)
  with s1 have st: "get_mac_status m w' = Some ''quarantine''"
    by (simp add: get_mac_status_def)
  have "events w' = events w @ [DbInsert m ''quarantine'', BlockRequested m] @ (es2 @ es3)
                      @ [NewDeviceAlert m ''quarantine'']"
    by (simp add: e1 e2 e3)
  moreover have "list_all enforcing (es2 @ es3)"
    using l2 l3 by (auto simp: list_all_iff side_enforcing is_sent_enforcing)
  ultimately show ?thesis using \<open>ok\<close> st by blast
qed

lemma main_cycle_after_loop:
  assumes ne: "scan_network proc \<noteq> {}"
    and p: "process_macs gw (known_macs (mac_addresses w)) (visit (scan_network proc)) w
              = (True, w1)"
  shows "mac_addresses (main_cycle gw proc visit w) = mac_addresses w1"
    and "\<exists>es. events (main_cycle gw proc visit w) = events w1 @ es \<and> list_all enforcing es"
proof -
  let ?w2 = "w1\<lparr>status_check_counter := status_check_counter w1 + 1\<rparr>"
  let ?w3 = "check_status_changes gw ?w2"
  have c: "main_cycle gw proc visit w =
             (if status_check_counter ?w2 \<ge> 3 then ?w3\<lparr>status_check_counter := 0\<rparr> else ?w2)"
    using ne p by (simp add: main_cycle_def Let_def)
  have s3: "steps enforcing ?w2 ?w3" by (rule check_status_changes_steps)
  from steps_table[OF s3] show "mac_addresses (main_cycle gw proc visit w) = mac_addresses w1"
    by (simp add: c)
  from steps_events[OF s3]
  show "\<exists>es. events (main_cycle gw proc visit w) = events w1 @ es \<and> list_all enforcing es"
    by (auto simp: c)
qed

text \<open>
  C1.  Let the registry satisfy its primary key and its status constraint, and let the
  \<open>for\<close> loop visit every element of the scan result once.  For a MAC \<open>m\<close> of the scan
  result that has no row: after the iteration its row has status \<open>quarantine\<close>; the trace
  of the iteration contains the insertion of that row, immediately followed by the call
  of \<open>block_mac\<close> for \<open>m\<close>, later followed by the new-device alert for \<open>m\<close>; and the
  iteration has no other registry write and no other new-device alert for \<open>m\<close>.
\<close>

theorem new_device_quarantined:
  assumes pk: "primary_key (mac_addresses w)"
    and sc: "status_constraint (mac_addresses w)"
    and vis: "set (visit (scan_network proc)) = scan_network proc"
    and dist: "distinct (visit (scan_network proc))"
    and m: "m \<in> scan_network proc"
    and new: "select_row (mac_addresses w) m = None"
  shows "get_mac_status m (main_cycle gw proc visit w) = Some ''quarantine''
       \<and> (\<exists>es1 es2 es3.
             events (main_cycle gw proc visit w) =
               events w @ es1 @ [DbInsert m ''quarantine'', BlockRequested m] @ es2
                 @ [NewDeviceAlert m ''quarantine''] @ es3
             \<and> (\<forall>e \<in> set (es1 @ es2 @ es3). \<not> classifies m e))"
proof -
  let ?known = "known_macs (mac_addresses w)"
  let ?S = "scan_network proc"
  have ne: "?S \<noteq> {}" using m by auto
  have kn: "?known m = None" using new by (simp add: known_macs_select pk)
  have chk: "\<And>x s. ?known x = Some s \<Longrightarrow> status_check s"
    using pk sc by (rule known_macs_checked)
  from m vis have "m \<in> set (visit ?S)" by simp
  then obtain pre post where v: "visit ?S = pre @ m # post"
    by (auto simp: in_set_conv_decomp)
  with dist have npre: "m \<notin> set pre" and npost: "m \<notin> set post" by auto
  obtain ok1 w1 where p1: "process_macs gw ?known pre w = (ok1, w1)" by fastforce
  have ok1 using process_macs_ok[where known="?known" and gw=gw and macs=pre and w=w]
      chk p1 by auto
  have g1: "grows (\<lambda>e. \<not> classifies m e) w w1" using npre p1 by (rule process_macs_quiet)
  have r1: "select_row (mac_addresses w1) m = None"
    using process_macs_other[OF npre p1] new by simp
  obtain ok2 w2 where p2: "process_mac gw ?known m w1 = (ok2, w2)" by fastforce
  from process_mac_new[OF kn r1 p2]
  obtain es2 where ok2 and st2: "get_mac_status m w2 = Some ''quarantine''"
    and e2: "events w2 = events w1 @ [DbInsert m ''quarantine'', BlockRequested m] @ es2
                  @ [NewDeviceAlert m ''quarantine'']"
    and l2: "list_all enforcing es2" by blast
  obtain ok3 w3 where p3: "process_macs gw ?known post w2 = (ok3, w3)" by fastforce
  have ok3 using process_macs_ok[where known="?known" and gw=gw and macs=post and w=w2]
      chk p3 by auto
  have g3: "grows (\<lambda>e. \<not> classifies m e) w2 w3" using npost p3 by (rule process_macs_quiet)
  have st3: "get_mac_status m w3 = Some ''quarantine''"
    using process_macs_other[OF npost p3] st2 by (simp add: get_mac_status_def)
  have p: "process_macs gw ?known (visit ?S) w = (True, w3)"
    using p1 p2 p3 \<open>ok1\<close> \<open>ok2\<close> \<open>ok3\<close> by (simp add: v process_macs_append)
  from main_cycle_after_loop[where visit=visit, OF ne p]
  obtain es4 where t4: "mac_addresses (main_cycle gw proc visit w) = mac_addresses w3"
    and e4: "events (main_cycle gw proc visit w) = events w3 @ es4"
    and l4: "list_all enforcing es4" by blast
  from g1 obtain es1 where e1: "events w1 = events w @ es1"
    and l1: "list_all (\<lambda>e. \<not> classifies m e) es1" by (auto simp: grows_def)
  from g3 obtain es3 where e3: "events w3 = events w2 @ es3"
    and l3: "list_all (\<lambda>e. \<not> classifies m e) es3" by (auto simp: grows_def)
  have "events (main_cycle gw proc visit w) =
          events w @ es1 @ [DbInsert m ''quarantine'', BlockRequested m] @ es2
            @ [NewDeviceAlert m ''quarantine''] @ (es3 @ es4)"
    by (simp add: e1 e2 e3 e4)
  moreover have "\<forall>e \<in> set (es1 @ es2 @ (es3 @ es4)). \<not> classifies m e"
    using l1 l2 l3 l4 by (auto simp: list_all_iff enforcing_not_classifies)
  moreover have "get_mac_status m (main_cycle gw proc visit w) = Some ''quarantine''"
    using st3 t4 by (simp add: get_mac_status_def)
  ultimately show ?thesis by blast
qed

theorem new_device_quarantined_witness:
  "primary_key (mac_addresses offline_world)
   \<and> status_constraint (mac_addresses offline_world)
   \<and> ''aa:bb:cc:dd:ee:02'' \<in> scan_network (Completed ''192.168.1.11 AA:BB:CC:DD:EE:02'')
   \<and> select_row (mac_addresses offline_world) ''aa:bb:cc:dd:ee:02'' = None
   \<and> get_mac_status ''aa:bb:cc:dd:ee:02''
        (main_cycle silent (Completed ''192.168.1.11 AA:BB:CC:DD:EE:02'')
           (\<lambda>S. [''aa:bb:cc:dd:ee:02'']) offline_world) = Some ''quarantine''"
proof -
  let ?proc = "Completed ''192.168.1.11 AA:BB:CC:DD:EE:02''"
  have pk: "primary_key (mac_addresses offline_world)"
    by (simp add: primary_key_def offline_world_def)
  have sc: "status_constraint (mac_addresses offline_world)"
    by (simp add: status_constraint_def offline_world_def row01_def status_check_def)
  have scan: "scan_network ?proc = {''aa:bb:cc:dd:ee:02''}"
    by code_simp
  have vis: "set ((\<lambda>S. [''aa:bb:cc:dd:ee:02'']) (scan_network ?proc)) = scan_network ?proc"
    by (simp add: scan)
  have dist: "distinct ((\<lambda>S. [''aa:bb:cc:dd:ee:02'']) (scan_network ?proc))"
    by simp
  have m: "''aa:bb:cc:dd:ee:02'' \<in> scan_network ?proc"
    by (simp add: scan)
  have new: "select_row (mac_addresses offline_world) ''aa:bb:cc:dd:ee:02'' = None"
    by (simp add: select_row_def offline_world_def row01_def)
  from new_device_quarantined[where visit="\<lambda>S. [''aa:bb:cc:dd:ee:02'']" and gw=silent,
         OF pk sc vis dist m new] pk sc m new
  show ?thesis by blast
qed

section \<open>Corrective calls of the drift check\<close>

lemma is_sent_drift_free: "is_sent e \<Longrightarrow> drift_free m e"
  by (cases e) (simp_all add: drift_free_def)

lemma drift_free_count:
  assumes "list_all (drift_free m) es"
  shows "count_list es (CallBlock m) = 0" "count_list es (CallAllow m) = 0"
    "count_list es (DriftWarning m) = 0" "list_all (\<lambda>e. \<not> is_alert e) es"
  using assms by (auto simp: count_list_0_iff list_all_iff drift_free_def)

lemma block_device_by_mac_trace:
  assumes "block_device_by_mac gw mac w = (r, w')"
  shows "\<exists>es. events w' = events w @ CallBlock mac # es \<and> list_all is_sent es"
    and "frame w w'"
proof -
  let ?w0 = "emit (CallBlock mac) w"
  have "steps is_sent ?w0 w'"
    using assms unfolding block_device_by_mac_def Let_def
    by (auto split: if_splits prod.splits reply.splits json.splits option.splits bool.splits
        dest!: send_auth_steps ensure_valid_session_steps add_to_blacklist_steps
        intro: steps_refl steps_trans)
  then show "\<exists>es. events w' = events w @ CallBlock mac # es \<and> list_all is_sent es"
    and "frame w w'"
    by (auto simp: steps_def emit_def frame_def)
qed

lemma allow_device_by_mac_trace:
  assumes "allow_device_by_mac gw mac w = (r, w')"
  shows "\<exists>es. events w' = events w @ CallAllow mac # es \<and> list_all is_sent es"
    and "frame w w'"
proof -
  let ?w0 = "emit (CallAllow mac) w"
  have "steps is_sent ?w0 w'"
    using assms unfolding allow_device_by_mac_def Let_def
    by (auto split: if_splits prod.splits reply.splits json.splits option.splits bool.splits
        dest!: send_auth_steps ensure_valid_session_steps
        intro: steps_refl steps_trans)
  then show "\<exists>es. events w' = events w @ CallAllow mac # es \<and> list_all is_sent es"
    and "frame w w'"
    by (auto simp: steps_def emit_def frame_def)
qed

lemma drift_block_trace:
  "\<exists>es. events (snd (block_device_by_mac gw mac (emit (DriftWarning mac) w)))
          = events w @ DriftWarning mac # CallBlock mac # es \<and> list_all is_sent es"
  using block_device_by_mac_trace(1)[OF prod.collapse[symmetric],
          where gw=gw and mac=mac and w="emit (DriftWarning mac) w"]
  by (auto simp: emit_def)

lemma drift_allow_trace:
  "\<exists>es. events (snd (allow_device_by_mac gw mac (emit (DriftWarning mac) w)))
          = events w @ DriftWarning mac # CallAllow mac # es \<and> list_all is_sent es"
  using allow_device_by_mac_trace(1)[OF prod.collapse[symmetric],
          where gw=gw and mac=mac and w="emit (DriftWarning mac) w"]
  by (auto simp: emit_def)

lemma drift_loop_Cons:
  "drift_loop gw states (row # rest) w = drift_loop gw states rest (drift_loop gw states [row] w)"
  by (cases row) (simp split: option.splits)

lemma drift_row_other:
  assumes "fst row \<noteq> m"
  shows "grows (drift_free m) w (drift_loop gw states [row] w)"
proof -
  obtain mac st where row: "row = (mac, st)" by (cases row)
  with assms have ne: "mac \<noteq> m" by simp
  have b: "grows (drift_free m) w (snd (block_device_by_mac gw mac (emit (DriftWarning mac) w)))"
    using drift_block_trace[of gw mac w] ne
    by (auto simp: grows_def list_all_iff drift_free_def is_sent_drift_free[unfolded drift_free_def])
  have a: "grows (drift_free m) w (snd (allow_device_by_mac gw mac (emit (DriftWarning mac) w)))"
    using drift_allow_trace[of gw mac w] ne
    by (auto simp: grows_def list_all_iff drift_free_def is_sent_drift_free[unfolded drift_free_def])
  show ?thesis
    unfolding row using a b by (auto simp: grows_refl split: option.splits)
qed

lemma drift_loop_other:
  "m \<notin> fst ` set rows \<Longrightarrow> grows (drift_free m) w (drift_loop gw states rows w)"
proof (induction rows arbitrary: w)
  case Nil
  show ?case by (simp add: grows_refl)
next
  case (Cons row rows)
  from Cons.prems have "fst row \<noteq> m" and "m \<notin> fst ` set rows" by auto
  from drift_row_other[OF this(1)] Cons.IH[OF this(2)]
  show ?case by (subst drift_loop_Cons) (blast intro: grows_trans)
qed

lemma drift_row_block:
  assumes "states m = Some acc" and "st = ''banned'' \<or> st = ''quarantine''" and "py_truthy acc"
  shows "\<exists>es. events (drift_loop gw states [(m, st)] w)
            = events w @ DriftWarning m # CallBlock m # es \<and> list_all is_sent es"
proof -
  have "\<not> py_eq_bool acc False" using assms(3) by (cases acc) auto
  with assms have "drift_loop gw states [(m, st)] w
      = snd (block_device_by_mac gw m (emit (DriftWarning m) w))"
    by auto
  then show ?thesis using drift_block_trace[of gw m w] by simp
qed

lemma drift_row_allow:
  assumes "states m = Some acc" and "st = ''authorized''" and "\<not> py_truthy acc"
  shows "\<exists>es. events (drift_loop gw states [(m, st)] w)
            = events w @ DriftWarning m # CallAllow m # es \<and> list_all is_sent es"
proof -
  have "\<not> py_eq_bool acc True" using assms(3) by (cases acc) auto
  with assms have "drift_loop gw states [(m, st)] w
      = snd (allow_device_by_mac gw m (emit (DriftWarning m) w))"
    by auto
  then show ?thesis using drift_allow_trace[of gw m w] by simp
qed

lemma drift_loop_append:
  "drift_loop gw states (xs @ ys) w = drift_loop gw states ys (drift_loop gw states xs w)"
proof (induction xs arbitrary: w)
  case Nil
  show ?case by simp
next
  case (Cons x xs)
  have "drift_loop gw states ((x # xs) @ ys) w
          = drift_loop gw states (xs @ ys) (drift_loop gw states [x] w)"
    by (simp only: append_Cons drift_loop_Cons[of gw states x "xs @ ys"])
  also have "\<dots> = drift_loop gw states ys (drift_loop gw states xs (drift_loop gw states [x] w))"
    by (rule Cons.IH)
  also have "drift_loop gw states xs (drift_loop gw states [x] w) = drift_loop gw states (x # xs) w"
    by (rule drift_loop_Cons[symmetric])
  finally show ?case .
qed

lemma drift_loop_one:
  assumes d: "distinct (map fst rows)" and mem: "(m, st) \<in> set rows"
    and row: "\<And>w1. \<exists>es. events (drift_loop gw states [(m, st)] w1)
                  = events w1 @ DriftWarning m # c # es \<and> list_all is_sent es"
  shows "\<exists>es1 es2 es3. events (drift_loop gw states rows w)
            = events w @ es1 @ DriftWarning m # c # es2 @ es3
          \<and> list_all (drift_free m) es1 \<and> list_all is_sent es2 \<and> list_all (drift_free m) es3"
proof -
  from mem obtain pre post where rows: "rows = pre @ (m, st) # post"
    by (auto simp: in_set_conv_decomp)
  with d have npre: "m \<notin> fst ` set pre" and npost: "m \<notin> fst ` set post" by auto
  let ?w1 = "drift_loop gw states pre w"
  let ?w2 = "drift_loop gw states [(m, st)] ?w1"
  let ?w3 = "drift_loop gw states post ?w2"
  have "drift_loop gw states (pre @ (m, st) # post) w
          = drift_loop gw states ((m, st) # post) ?w1"
    by (rule drift_loop_append)
  also have "\<dots> = ?w3" by (rule drift_loop_Cons)
  finally have w3: "drift_loop gw states rows w = ?w3" unfolding rows .
  from drift_loop_other[OF npre, of w gw states]
  obtain es1 where e1: "events ?w1 = events w @ es1" and l1: "list_all (drift_free m) es1"
    by (auto simp: grows_def)
  from row[of ?w1]
  obtain es2 where e2: "events ?w2 = events ?w1 @ DriftWarning m # c # es2"
    and l2: "list_all is_sent es2" by blast
  from drift_loop_other[OF npost, of ?w2 gw states]
  obtain es3 where e3: "events ?w3 = events ?w2 @ es3" and l3: "list_all (drift_free m) es3"
    by (auto simp: grows_def)
  have "events ?w3 = events w @ es1 @ DriftWarning m # c # es2 @ es3"
    by (simp only: e3 e2 e1 append_assoc append_Cons)
  then have "events (drift_loop gw states rows w)
          = events w @ es1 @ DriftWarning m # c # es2 @ es3"
    by (simp only: w3)
  with l1 l2 l3 show ?thesis by blast
qed

lemma drift_counts:
  assumes "list_all (drift_free m) es1" "list_all is_sent es2" "list_all (drift_free m) es3"
    and "c = CallBlock m \<or> c = CallAllow m"
  shows "count_list (es1 @ DriftWarning m # c # es2 @ es3) (DriftWarning m) = 1"
    and "count_list (es1 @ DriftWarning m # c # es2 @ es3) c = 1"
    and "c = CallBlock m \<Longrightarrow> count_list (es1 @ DriftWarning m # c # es2 @ es3) (CallAllow m) = 0"
    and "c = CallAllow m \<Longrightarrow> count_list (es1 @ DriftWarning m # c # es2 @ es3) (CallBlock m) = 0"
    and "list_all (\<lambda>e. \<not> is_alert e) (es1 @ DriftWarning m # c # es2 @ es3)"
proof -
  from assms(2) have s2: "list_all (drift_free m) es2"
    by (auto simp: list_all_iff is_sent_drift_free)
  note c1 = drift_free_count[OF assms(1)] and c2 = drift_free_count[OF s2]
    and c3 = drift_free_count[OF assms(3)]
  show "count_list (es1 @ DriftWarning m # c # es2 @ es3) (DriftWarning m) = 1"
    using assms(4) c1 c2 c3 by auto
  show "count_list (es1 @ DriftWarning m # c # es2 @ es3) c = 1"
    using assms(4) c1 c2 c3 by auto
  show "c = CallBlock m \<Longrightarrow> count_list (es1 @ DriftWarning m # c # es2 @ es3) (CallAllow m) = 0"
    using c1 c2 c3 by auto
  show "c = CallAllow m \<Longrightarrow> count_list (es1 @ DriftWarning m # c # es2 @ es3) (CallBlock m) = 0"
    using c1 c2 c3 by auto
  show "list_all (\<lambda>e. \<not> is_alert e) (es1 @ DriftWarning m # c # es2 @ es3)"
    using assms(4) c1 c2 c3 by auto
qed

lemma sent_not_alert: "is_sent e \<Longrightarrow> \<not> is_alert e"
  by (cases e) auto

lemma drift_row_quiet: "grows (\<lambda>e. \<not> is_alert e) w (drift_loop gw states [row] w)"
proof -
  obtain mac st where row: "row = (mac, st)" by (cases row)
  have b: "grows (\<lambda>e. \<not> is_alert e) w
             (snd (block_device_by_mac gw mac (emit (DriftWarning mac) w)))"
    using drift_block_trace[of gw mac w]
    by (auto simp: grows_def list_all_iff sent_not_alert)
  have a: "grows (\<lambda>e. \<not> is_alert e) w
             (snd (allow_device_by_mac gw mac (emit (DriftWarning mac) w)))"
    using drift_allow_trace[of gw mac w]
    by (auto simp: grows_def list_all_iff sent_not_alert)
  show ?thesis
    unfolding row using a b by (auto simp: grows_refl split: option.splits)
qed

lemma drift_loop_quiet: "grows (\<lambda>e. \<not> is_alert e) w (drift_loop gw states rows w)"
proof (induction rows arbitrary: w)
  case Nil
  show ?case by (simp add: grows_refl)
next
  case (Cons row rows)
  from drift_row_quiet[of w gw states row] Cons[of "drift_loop gw states [row] w"]
  show ?case by (subst drift_loop_Cons) (rule grows_trans)
qed

text \<open>
  C4 (as amended).  Let the engine be connected, let the gateway answer the drift check
  with a list of devices from which the dictionary \<open>freebox_states\<close> is built, and let
  the registry (under its primary key) have a row for \<open>m\<close> for which the gateway reports
  an access flag.  Then the drift check leaves the registry as it is and sends no alert
  (the mismatch is not escalated), and
  \<^item> if the status is \<open>banned\<close> or \<open>quarantine\<close> and the flag is true, it logs exactly one
    drift warning for \<open>m\<close> and calls \<open>block_device_by_mac\<close> for \<open>m\<close> exactly once
    (and \<open>allow_device_by_mac\<close> never);
  \<^item> if the status is \<open>authorized\<close> and the flag is false, it logs exactly one drift
    warning for \<open>m\<close> and calls \<open>allow_device_by_mac\<close> for \<open>m\<close> exactly once
    (and \<open>block_device_by_mac\<close> never).

  The value the corrective call returns is not read.  What the call achieves at the
  gateway is therefore no part of the statement: the two runs given after the witness
  are runs in which it changes nothing.
\<close>

theorem drift_check_corrects:
  assumes conn: "connected w"
    and pk: "primary_key (mac_addresses w)"
    and row: "select_row (mac_addresses w) m = Some r"
    and devs: "get_network_devices gw w = (devices, w1)"
    and ne: "devices \<noteq> []"
    and sts: "freebox_states devices Map.empty = Some states"
    and acc: "states m = Some access"
  shows "\<exists>es. events (check_status_changes gw w) = events w @ es
           \<and> mac_addresses (check_status_changes gw w) = mac_addresses w
           \<and> list_all (\<lambda>e. \<not> is_alert e) es
           \<and> ((status r = ''banned'' \<or> status r = ''quarantine'') \<and> py_truthy access \<longrightarrow>
                 count_list es (DriftWarning m) = 1 \<and> count_list es (CallBlock m) = 1
                 \<and> count_list es (CallAllow m) = 0)
           \<and> (status r = ''authorized'' \<and> \<not> py_truthy access \<longrightarrow>
                 count_list es (DriftWarning m) = 1 \<and> count_list es (CallAllow m) = 1
                 \<and> count_list es (CallBlock m) = 0)"
proof -
  let ?rows = "map (\<lambda>r. (mac_address r, status r)) (mac_addresses w)"
  let ?w' = "check_status_changes gw w"
  have c: "?w' = drift_loop gw states ?rows w1"
    using conn devs ne sts by (simp add: check_status_changes_def Let_def)
  have d: "distinct (map fst ?rows)"
    using pk by (simp add: primary_key_def comp_def)
  have "r \<in> set (mac_addresses w)" using row by (auto simp: select_row_def find_Some_iff)
  moreover have "mac_address r = m" using row by (rule select_row_mac)
  ultimately have mem: "(m, status r) \<in> set ?rows" by force
  from get_network_devices_steps[OF devs]
  obtain es0 where e0: "events w1 = events w @ es0" and l0: "list_all is_sent es0"
    and t0: "mac_addresses w1 = mac_addresses w"
    by (auto simp: steps_def frame_def)
  have l0': "list_all (drift_free m) es0"
    using l0 by (auto simp: list_all_iff is_sent_drift_free)
  have tbl: "mac_addresses ?w' = mac_addresses w"
    using steps_table[OF drift_loop_steps[where gw=gw and states=states and rows="?rows" and w=w1]]
      t0 by (simp add: c)
  let ?A = "(status r = ''banned'' \<or> status r = ''quarantine'') \<and> py_truthy access"
  let ?B = "status r = ''authorized'' \<and> \<not> py_truthy access"
  consider (block) ?A | (allow) ?B | (none) "\<not> ?A \<and> \<not> ?B" by blast
  then show ?thesis
  proof cases
    case block
    then have nb: "\<not> ?B" by auto
    from block have "\<And>w2. \<exists>es. events (drift_loop gw states [(m, status r)] w2)
          = events w2 @ DriftWarning m # CallBlock m # es \<and> list_all is_sent es"
      using acc by (intro drift_row_block) auto
    from drift_loop_one[OF d mem this, of w1]
    obtain es1 es2 es3 where e: "events (drift_loop gw states ?rows w1)
            = events w1 @ es1 @ DriftWarning m # CallBlock m # es2 @ es3"
      and l1: "list_all (drift_free m) es1" and l2: "list_all is_sent es2"
      and l3: "list_all (drift_free m) es3" by blast
    let ?es = "(es0 @ es1) @ DriftWarning m # CallBlock m # es2 @ es3"
    have l01: "list_all (drift_free m) (es0 @ es1)" using l0' l1 by simp
    have ev: "events ?w' = events w @ ?es" by (simp only: c e e0 append_assoc)
    note k = drift_counts[OF l01 l2 l3, of "CallBlock m"]
    have "count_list ?es (DriftWarning m) = 1" "count_list ?es (CallBlock m) = 1"
      "count_list ?es (CallAllow m) = 0" "list_all (\<lambda>e. \<not> is_alert e) ?es"
      using k by simp_all
    with ev tbl nb show ?thesis by blast
  next
    case allow
    then have na: "\<not> ?A" by auto
    from allow have "\<And>w2. \<exists>es. events (drift_loop gw states [(m, status r)] w2)
          = events w2 @ DriftWarning m # CallAllow m # es \<and> list_all is_sent es"
      using acc by (intro drift_row_allow) auto
    from drift_loop_one[OF d mem this, of w1]
    obtain es1 es2 es3 where e: "events (drift_loop gw states ?rows w1)
            = events w1 @ es1 @ DriftWarning m # CallAllow m # es2 @ es3"
      and l1: "list_all (drift_free m) es1" and l2: "list_all is_sent es2"
      and l3: "list_all (drift_free m) es3" by blast
    let ?es = "(es0 @ es1) @ DriftWarning m # CallAllow m # es2 @ es3"
    have l01: "list_all (drift_free m) (es0 @ es1)" using l0' l1 by simp
    have ev: "events ?w' = events w @ ?es" by (simp only: c e e0 append_assoc)
    note k = drift_counts[OF l01 l2 l3, of "CallAllow m"]
    have "count_list ?es (DriftWarning m) = 1" "count_list ?es (CallAllow m) = 1"
      "count_list ?es (CallBlock m) = 0" "list_all (\<lambda>e. \<not> is_alert e) ?es"
      using k by simp_all
    with ev tbl na show ?thesis by blast
  next
    case none
    from drift_loop_quiet[of w1 gw states ?rows]
    obtain es where e: "events (drift_loop gw states ?rows w1) = events w1 @ es"
      and l: "list_all (\<lambda>e. \<not> is_alert e) es" by (auto simp: grows_def)
    have ev: "events ?w' = events w @ (es0 @ es)" by (simp only: c e e0 append_assoc)
    have "list_all (\<lambda>e. \<not> is_alert e) (es0 @ es)"
      using l l0 by (auto simp: list_all_iff sent_not_alert)
    with ev tbl none show ?thesis by blast
  qed
qed

theorem drift_check_corrects_witness:
  "connected drift_world
   \<and> primary_key (mac_addresses drift_world)
   \<and> select_row (mac_addresses drift_world) ''aa:bb:cc:dd:ee:03'' = Some row03
   \<and> fst (get_network_devices scripted drift_world) = [device03]
   \<and> map_option (\<lambda>states. states ''aa:bb:cc:dd:ee:03'') (freebox_states [device03] Map.empty)
       = Some (Some (JBool True))
   \<and> status row03 = ''banned''
   \<and> (\<exists>es. events (check_status_changes scripted drift_world) = events drift_world @ es
          \<and> count_list es (DriftWarning ''aa:bb:cc:dd:ee:03'') = 1
          \<and> count_list es (CallBlock ''aa:bb:cc:dd:ee:03'') = 1
          \<and> count_list es (CallAllow ''aa:bb:cc:dd:ee:03'') = 0)"
proof -
  let ?m = "''aa:bb:cc:dd:ee:03''"
  have conn: "connected drift_world" by (simp add: drift_world_def)
  have pk: "primary_key (mac_addresses drift_world)"
    by (simp add: primary_key_def drift_world_def)
  have row: "select_row (mac_addresses drift_world) ?m = Some row03"
    by (simp add: select_row_def drift_world_def row03_def)
  have d: "fst (get_network_devices scripted drift_world) = [device03]"
    by code_simp
  then have devs: "get_network_devices scripted drift_world
      = ([device03], snd (get_network_devices scripted drift_world))"
    by (metis prod.collapse)
  have ne: "[device03] \<noteq> []" by simp
  have s: "map_option (\<lambda>states. states ?m) (freebox_states [device03] Map.empty)
       = Some (Some (JBool True))"
    by code_simp
  then obtain states where sts: "freebox_states [device03] Map.empty = Some states"
    and acc: "states ?m = Some (JBool True)" by auto
  have st: "status row03 = ''banned''" by (simp add: row03_def)
  have tr: "py_truthy (JBool True)" by simp
  from drift_check_corrects[OF conn pk row devs ne sts acc] st tr
  have "\<exists>es. events (check_status_changes scripted drift_world) = events drift_world @ es
          \<and> count_list es (DriftWarning ?m) = 1
          \<and> count_list es (CallBlock ?m) = 1
          \<and> count_list es (CallAllow ?m) = 0"
    by blast
  with conn pk row d s st show ?thesis by blast
qed

text \<open>
  The registry says \<open>banned\<close> and the gateway reports the access of the device as
  allowed.  When the filter already lists the MAC, the corrective call returns \<open>True\<close>
  after the GET; when the gateway does not answer the GET, it returns \<open>False\<close>.  Either
  way the drift check goes on: no request that changes the filter is sent, and the
  gateway is left as it was.
\<close>

theorem drift_check_not_corrected:
  "select_row (mac_addresses listed_world) ''aa:bb:cc:dd:ee:03'' = Some row03
   \<and> status row03 = ''banned''
   \<and> fst (get_network_devices scripted listed_world) = [device03]
   \<and> device_access device03 = JBool True
   \<and> events (check_status_changes scripted listed_world)
       = [Sent (LoginProbe ''tok''), Sent (LanBrowserGet ''tok''),
          DriftWarning ''aa:bb:cc:dd:ee:03'', CallBlock ''aa:bb:cc:dd:ee:03'',
          Sent (LoginProbe ''tok''), Sent (MacFilterGet ''tok'')]
   \<and> select_row (mac_addresses silent_world) ''aa:bb:cc:dd:ee:03'' = Some row03
   \<and> fst (get_network_devices scripted silent_world) = [device03]
   \<and> events (check_status_changes scripted silent_world)
       = [Sent (LoginProbe ''tok''), Sent (LanBrowserGet ''tok''),
          DriftWarning ''aa:bb:cc:dd:ee:03'', CallBlock ''aa:bb:cc:dd:ee:03'',
          Sent (LoginProbe ''tok''), Sent (MacFilterGet ''tok'')]"
  by code_simp

section \<open>The requests of the session manager\<close>

lemma send_trace:
  "send gw rq w = (rp, w') \<Longrightarrow>
     events w' = events w @ [Sent rq] \<and> frame w w'
     \<and> session_token w' = session_token w \<and> connected w' = connected w"
  by (auto simp: send_def frame_def split: prod.splits)

lemma send_auth_trace:
  "send_auth gw mk w = (rp, w') \<Longrightarrow>
     (events w' = events w \<and> rp = Raised
      \<or> (\<exists>tok. session_token w = JStr tok \<and> events w' = events w @ [Sent (mk tok)]))
     \<and> frame w w' \<and> session_token w' = session_token w \<and> connected w' = connected w"
  by (auto simp: send_auth_def frame_def dest!: send_trace split: json.splits)

lemma get_new_session_token_trace:
  "get_new_session_token gw w = (r, w') \<Longrightarrow>
     (events w' = events w \<or> events w' = events w @ [Sent LoginChallenge]
      \<or> (\<exists>k c. events w' = events w @ [Sent LoginChallenge, Sent (LoginSession k c)]))
     \<and> frame w w' \<and> connected w' = connected w"
  unfolding get_new_session_token_def
  by (auto simp: frame_def frame_refl dest!: send_trace
      split: if_splits prod.splits reply.splits json.splits option.splits)

lemma is_session_valid_trace:
  "is_session_valid gw w = (r, w') \<Longrightarrow>
     (events w' = events w \<or> (\<exists>tok. events w' = events w @ [Sent (LoginProbe tok)]))
     \<and> frame w w' \<and> session_token w' = session_token w \<and> connected w' = connected w"
  unfolding is_session_valid_def
  by (auto simp: frame_refl dest!: send_auth_trace
      split: if_splits prod.splits reply.splits json.splits)

text \<open>What \<open>ensure_valid_session\<close> sends: login requests only, at most one probe, which
  comes first, and at most one handshake.\<close>

lemma ensure_valid_session_trace:
  assumes "ensure_valid_session gw w = (r, w')"
  shows "\<exists>rs. events w' = events w @ map Sent rs \<and> list_all is_login rs
           \<and> count_list rs LoginChallenge \<le> 1 \<and> frame w w' \<and> (r \<longrightarrow> connected w' = connected w)"
proof (cases "py_truthy (session_token w)")
  case False
  with assms have "get_new_session_token gw w = (r, w')"
    by (simp add: ensure_valid_session_def)
  from get_new_session_token_trace[OF this]
  consider "events w' = events w @ map Sent []"
    | "events w' = events w @ map Sent [LoginChallenge]"
    | k c where "events w' = events w @ map Sent [LoginChallenge, LoginSession k c]"
    by auto
  then have "\<exists>rs. events w' = events w @ map Sent rs \<and> list_all is_login rs
           \<and> count_list rs LoginChallenge \<le> 1"
  proof cases
    case 1
    then show ?thesis by (intro exI[where x="[]"]) simp
  next
    case 2
    then show ?thesis by (intro exI[where x="[LoginChallenge]"]) simp
  next
    case 3
    then show ?thesis by (intro exI[where x="[LoginChallenge, LoginSession k c]"]) simp
  qed
  with get_new_session_token_trace[OF \<open>get_new_session_token gw w = (r, w')\<close>]
  show ?thesis by blast
next
  case True
  obtain v w1 where isv: "is_session_valid gw w = (v, w1)" by (cases "is_session_valid gw w")
  from is_session_valid_trace[OF isv]
  have f1: "frame w w1" and c1: "connected w1 = connected w"
    and "events w1 = events w \<or> (\<exists>tok. events w1 = events w @ [Sent (LoginProbe tok)])"
    by auto
  then obtain ps where e1: "events w1 = events w @ map Sent ps" and lp: "list_all is_login ps"
    and cp: "count_list ps LoginChallenge = 0"
  proof (elim disjE exE)
    assume "events w1 = events w"
    then show ?thesis by (intro that[of "[]"]) simp_all
  next
    fix tok assume "events w1 = events w @ [Sent (LoginProbe tok)]"
    then show ?thesis by (intro that[of "[LoginProbe tok]"]) simp_all
  qed
  show ?thesis
  proof (cases v)
    case True
    with assms isv \<open>py_truthy (session_token w)\<close> have "r" "w' = w1"
      by (auto simp: ensure_valid_session_def)
    with e1 lp cp f1 c1 show ?thesis by (intro exI[where x=ps]) simp
  next
    case False
    obtain r2 w2 where g: "get_new_session_token gw w1 = (r2, w2)"
      by (cases "get_new_session_token gw w1")
    from get_new_session_token_trace[OF g]
    have f2: "frame w1 w2" and c2: "connected w2 = connected w1"
      and "events w2 = events w1 \<or> events w2 = events w1 @ [Sent LoginChallenge]
      \<or> (\<exists>k c. events w2 = events w1 @ [Sent LoginChallenge, Sent (LoginSession k c)])"
      by auto
    then obtain hs where e2: "events w2 = events w1 @ map Sent hs"
      and lh: "list_all is_login hs" and ch: "count_list hs LoginChallenge \<le> 1"
    proof (elim disjE exE)
      assume "events w2 = events w1"
      then show ?thesis by (intro that[of "[]"]) simp_all
    next
      assume "events w2 = events w1 @ [Sent LoginChallenge]"
      then show ?thesis by (intro that[of "[LoginChallenge]"]) simp_all
    next
      fix k c assume "events w2 = events w1 @ [Sent LoginChallenge, Sent (LoginSession k c)]"
      then show ?thesis by (intro that[of "[LoginChallenge, LoginSession k c]"]) simp_all
    qed
    have ev: "events w' = events w2" and fr: "frame w2 w'" and cn: "r \<longrightarrow> connected w' = connected w2"
      using assms isv g False \<open>py_truthy (session_token w)\<close>
      by (auto simp: ensure_valid_session_def frame_def split: bool.splits)
    have "events w' = events w @ map Sent (ps @ hs)" by (simp add: ev e2 e1)
    moreover have "list_all is_login (ps @ hs)" using lp lh by simp
    moreover have "count_list (ps @ hs) LoginChallenge \<le> 1" using cp ch by simp
    moreover have "frame w w'" using f1 f2 fr by (simp add: frame_def)
    moreover have "r \<longrightarrow> connected w' = connected w" using cn c2 c1 by simp
    ultimately show ?thesis by blast
  qed
qed

lemma is_login_not_mutation: "is_login rq \<Longrightarrow> \<not> is_mutation rq"
  by (cases rq) auto

section \<open>Allowing a device that is not in the filter\<close>

lemma filter_id_in_list_absent:
  "those (map entry_mac fs) = Some macs \<Longrightarrow> py_lower mac \<notin> py_lower ` set macs \<Longrightarrow>
   filter_id_in_list fs mac = Some JNull"
proof (induction fs arbitrary: macs)
  case Nil
  then show ?case by simp
next
  case (Cons f fs)
  then show ?case by (auto split: option.splits)
qed

lemma filter_id_in_dict_absent:
  "py_lower mac \<notin> py_lower ` fst ` set kvs \<Longrightarrow> filter_id_in_dict kvs mac = JNull"
  by (induction kvs mac rule: filter_id_in_dict.induct) auto

lemma find_filter_id_absent:
  assumes "filter_macs fl = Some macs" and "py_lower mac \<notin> py_lower ` set macs"
  shows "find_filter_id fl mac = Some JNull"
proof (cases fl)
  case (JArr fs)
  with assms show ?thesis
    by (simp add: filter_macs_def find_filter_id_def filter_id_in_list_absent)
next
  case (JObj kvs)
  with assms(1) have "macs = map fst kvs"
    by (simp add: filter_macs_def)
  with assms(2) have "py_lower mac \<notin> py_lower ` fst ` set kvs"
    by simp
  with JObj show ?thesis
    by (simp add: find_filter_id_def filter_id_in_dict_absent)
qed (simp_all add: find_filter_id_def)

text \<open>
  C6.  The engine is connected, its session is valid or can be renewed, and the gateway
  answers the GET of the filter with a success whose result lists the MACs \<open>macs\<close> (as a
  sequence of entries or as a mapping).  When \<open>mac\<close> is none of them, compared without
  case, \<open>allow_device_by_mac\<close> returns \<open>True\<close> in the state the GET left: nothing is sent
  after the GET, and no request of the whole call changes the filter.
\<close>

theorem allow_absent_is_noop:
  assumes "connected w"
    and "ensure_valid_session gw (emit (CallAllow mac) w) = (True, w1)"
    and "send_auth gw MacFilterGet w1 = (Reply code (JObj result), w2)"
    and "py_truthy (dict_get result ''success'' (JBool False))"
    and "filter_macs (dict_get result ''result'' (JArr [])) = Some macs"
    and "py_lower mac \<notin> py_lower ` set macs"
  shows "allow_device_by_mac gw mac w = (True, w2)
    \<and> (\<exists>es. events w2 = events w @ es \<and> list_all (\<lambda>e. \<not> mutates e) es)"
proof -
  have id: "find_filter_id (dict_get result ''result'' (JArr [])) mac = Some JNull"
    using assms(5,6) by (rule find_filter_id_absent)
  have c: "connected (emit (CallAllow mac) w)" using assms(1) by (simp add: emit_def)
  have r: "allow_device_by_mac gw mac w = (True, w2)"
    unfolding allow_device_by_mac_def Let_def using c assms(2,3,4) id by simp
  from ensure_valid_session_trace[OF assms(2)]
  obtain rs where e1: "events w1 = events (emit (CallAllow mac) w) @ map Sent rs"
    and l: "list_all is_login rs" by blast
  from send_auth_trace[OF assms(3)]
  obtain tok where e2: "events w2 = events w1 @ [Sent (MacFilterGet tok)]" by auto
  have "events w2 = events w @ (CallAllow mac # map Sent rs @ [Sent (MacFilterGet tok)])"
    by (simp add: e2 e1 emit_def)
  moreover have "list_all (\<lambda>e. \<not> mutates e) (CallAllow mac # map Sent rs @ [Sent (MacFilterGet tok)])"
    using l by (auto simp: list_all_iff dest: is_login_not_mutation)
  ultimately show ?thesis using r by blast
qed

theorem allow_absent_is_noop_witness:
  "connected allow_world
   \<and> fst (ensure_valid_session scripted (emit (CallAllow ''aa:bb:cc:dd:ee:01'') allow_world))
   \<and> fst (send_auth scripted MacFilterGet
            (snd (ensure_valid_session scripted
                    (emit (CallAllow ''aa:bb:cc:dd:ee:01'') allow_world))))
       = ok_reply (JArr [entry04])
   \<and> filter_macs (JArr [entry04]) = Some [''AA:BB:CC:DD:EE:04'']
   \<and> py_lower ''aa:bb:cc:dd:ee:01'' \<notin> py_lower ` set [''AA:BB:CC:DD:EE:04'']
   \<and> fst (allow_device_by_mac scripted ''aa:bb:cc:dd:ee:01'' allow_world)
   \<and> events (snd (allow_device_by_mac scripted ''aa:bb:cc:dd:ee:01'' allow_world))
       = [CallAllow ''aa:bb:cc:dd:ee:01'', Sent (LoginProbe ''tok''),
          Sent (MacFilterGet ''tok'')]"
proof -
  let ?m = "''aa:bb:cc:dd:ee:01''"
  let ?s = "ensure_valid_session scripted (emit (CallAllow ?m) allow_world)"
  let ?g = "send_auth scripted MacFilterGet (snd ?s)"
  let ?result = "[(''success'', JBool True), (''result'', JArr [entry04])]"
  have conn: "connected allow_world" by (simp add: allow_world_def)
  have s: "fst ?s" by code_simp
  then have s': "?s = (True, snd ?s)" by (metis prod.collapse)
  have g: "fst ?g = ok_reply (JArr [entry04])" by code_simp
  then have g': "?g = (Reply 200 (JObj ?result), snd ?g)"
    unfolding ok_reply_def by (metis prod.collapse)
  have t: "py_truthy (dict_get ?result ''success'' (JBool False))" by code_simp
  have d: "dict_get ?result ''result'' (JArr []) = JArr [entry04]" by code_simp
  have f: "filter_macs (JArr [entry04]) = Some [''AA:BB:CC:DD:EE:04'']" by code_simp
  have n: "py_lower ?m \<notin> py_lower ` set [''AA:BB:CC:DD:EE:04'']" by code_simp
  have f': "filter_macs (dict_get ?result ''result'' (JArr [])) = Some [''AA:BB:CC:DD:EE:04'']"
    by (simp only: d f)
  have "allow_device_by_mac scripted ?m allow_world = (True, snd ?g)
    \<and> (\<exists>es. events (snd ?g) = events allow_world @ es \<and> list_all (\<lambda>e. \<not> mutates e) es)"
    using conn s' g' t f' n by (rule allow_absent_is_noop)
  then have a: "allow_device_by_mac scripted ?m allow_world = (True, snd ?g)" ..
  have e: "events (snd (allow_device_by_mac scripted ?m allow_world))
       = [CallAllow ?m, Sent (LoginProbe ''tok''), Sent (MacFilterGet ''tok'')]"
    by code_simp
  from a have "fst (allow_device_by_mac scripted ?m allow_world)" by simp
  with conn s g f n e show ?thesis by blast
qed

section \<open>The session is validated before the operation, not during it\<close>

lemma send_auth_cases:
  assumes "send_auth gw mk w = (rp, w')"
  obtains (raised) "rp = Raised" "w' = w"
  | (sent) tok where "session_token w = JStr tok" "session_token w' = JStr tok"
      "events w' = events w @ [Sent (mk tok)]"
  using assms by (auto simp: send_auth_def dest!: send_trace split: json.splits)

lemma read_reply:
  "(case x of (Reply code (JObj body), w') \<Rightarrow> (py_truthy (dict_get body ''success'' (JBool False)), w')
            | (_, w') \<Rightarrow> (False, w'))
   = (accepted (fst x), snd x)"
  by (cases x) (auto split: reply.splits json.splits)

lemma add_to_blacklist_result:
  "snd (add_to_blacklist gw mac w) = snd (send_auth gw (\<lambda>tok. MacFilterPost tok (py_upper mac)) w)
   \<and> (fst (add_to_blacklist gw mac w)
        \<longrightarrow> accepted (fst (send_auth gw (\<lambda>tok. MacFilterPost tok (py_upper mac)) w)))"
  unfolding add_to_blacklist_def
  by (cases "send_auth gw (\<lambda>tok. MacFilterPost tok (py_upper mac)) w")
     (auto split: reply.splits json.splits option.splits)

text \<open>What follows the validation of the session in the two operations.\<close>

lemma block_device_by_mac_tail:
  assumes "connected w"
    and "ensure_valid_session gw (emit (CallBlock mac) w) = (True, w1)"
    and "send_auth gw MacFilterGet w1 = (rp, w2)"
  shows "block_device_by_mac gw mac w = (False, w2)
    \<or> block_device_by_mac gw mac w = (True, w2) \<and> accepted rp
    \<or> block_device_by_mac gw mac w = add_to_blacklist gw mac w2 \<and> rp \<noteq> Raised"
proof -
  have c: "connected (emit (CallBlock mac) w)" using assms(1) by (simp add: emit_def)
  show ?thesis
    unfolding block_device_by_mac_def Let_def using c assms(2,3)
    by (cases rp) (auto split: json.splits option.splits bool.splits)
qed

lemma allow_device_by_mac_tail:
  assumes "connected w"
    and "ensure_valid_session gw (emit (CallAllow mac) w) = (True, w1)"
    and "send_auth gw MacFilterGet w1 = (rp, w2)"
  shows "allow_device_by_mac gw mac w = (False, w2)
    \<or> allow_device_by_mac gw mac w = (True, w2) \<and> accepted rp
    \<or> (\<exists>fid. allow_device_by_mac gw mac w
                = (accepted (fst (send_auth gw (\<lambda>tok. MacFilterDelete tok fid) w2)),
                   snd (send_auth gw (\<lambda>tok. MacFilterDelete tok fid) w2))
             \<and> rp \<noteq> Raised \<and> accepted rp)"
proof -
  have c: "connected (emit (CallAllow mac) w)" using assms(1) by (simp add: emit_def)
  show ?thesis
    unfolding allow_device_by_mac_def Let_def read_reply using c assms(2,3)
    by (cases rp) (auto split: json.splits option.splits)
qed

lemma block_device_by_mac_requests:
  "\<exists>logins filters tok.
      events (snd (block_device_by_mac gw mac w))
        = events w @ CallBlock mac # map Sent (logins @ filters)
      \<and> list_all is_login logins \<and> count_list logins LoginChallenge \<le> 1
      \<and> (filters = [] \<or> filters = [MacFilterGet tok]
           \<or> filters = [MacFilterGet tok, MacFilterPost tok (py_upper mac)])
      \<and> (\<not> connected w \<or> \<not> fst (validated gw (CallBlock mac) w)
           \<longrightarrow> filters = [] \<and> \<not> fst (block_device_by_mac gw mac w))
      \<and> (filters = [MacFilterGet tok, MacFilterPost tok (py_upper mac)]
           \<and> \<not> accepted (fst (send_auth gw (\<lambda>t. MacFilterPost t (py_upper mac))
                                  (snd (fetched gw (CallBlock mac) w))))
           \<longrightarrow> \<not> fst (block_device_by_mac gw mac w))"
  (is "\<exists>logins filters tok. ?P logins filters tok")
proof (cases "connected w")
  case False
  then have "block_device_by_mac gw mac w = (False, emit (CallBlock mac) w)"
    by (simp add: block_device_by_mac_def Let_def emit_def)
  with False have "?P [] [] []" by (simp add: emit_def)
  then show ?thesis by blast
next
  case conn: True
  let ?w0 = "emit (CallBlock mac) w"
  have c0: "connected ?w0" using conn by (simp add: emit_def)
  obtain ok w1 where v: "ensure_valid_session gw ?w0 = (ok, w1)"
    by (cases "ensure_valid_session gw ?w0")
  from ensure_valid_session_trace[OF v]
  obtain rs where e1: "events w1 = events w @ CallBlock mac # map Sent rs"
    and l: "list_all is_login rs" and k: "count_list rs LoginChallenge \<le> 1"
    by (auto simp: emit_def)
  have vd: "validated gw (CallBlock mac) w = (ok, w1)" by (simp add: validated_def v)
  show ?thesis
  proof (cases ok)
    case False
    with v c0 have "block_device_by_mac gw mac w = (False, w1)"
      by (simp add: block_device_by_mac_def Let_def)
    with e1 l k have "?P rs [] []" by simp
    then show ?thesis by blast
  next
    case True
    obtain rp w2 where g: "send_auth gw MacFilterGet w1 = (rp, w2)"
      by (cases "send_auth gw MacFilterGet w1")
    have fd: "fetched gw (CallBlock mac) w = (rp, w2)" by (simp add: fetched_def vd g)
    have v': "ensure_valid_session gw ?w0 = (True, w1)" using v True by simp
    note tail = block_device_by_mac_tail[OF conn v' g]
    from g show ?thesis
    proof (cases rule: send_auth_cases)
      case raised
      with tail have "block_device_by_mac gw mac w = (False, w1)" by auto
      with e1 l k True vd conn have "?P rs [] []" by simp
      then show ?thesis by blast
    next
      case (sent tok)
      have e2: "events w2 = events w @ CallBlock mac # map Sent (rs @ [MacFilterGet tok])"
        by (simp add: sent(3) e1)
      obtain rp' w3 where p: "send_auth gw (\<lambda>t. MacFilterPost t (py_upper mac)) w2 = (rp', w3)"
        by (cases "send_auth gw (\<lambda>t. MacFilterPost t (py_upper mac)) w2")
      from tail consider "snd (block_device_by_mac gw mac w) = w2"
        | "block_device_by_mac gw mac w = add_to_blacklist gw mac w2" by auto
      then show ?thesis
      proof cases
        case 1
        with e2 l k True vd conn have "?P rs [MacFilterGet tok] tok" by simp
        then show ?thesis by blast
      next
        case 2
        from add_to_blacklist_result[of gw mac w2] p
        have s3: "snd (add_to_blacklist gw mac w2) = w3"
          and a3: "fst (add_to_blacklist gw mac w2) \<longrightarrow> accepted rp'" by simp_all
        from p show ?thesis
        proof (cases rule: send_auth_cases)
          case raised
          with 2 s3 have "snd (block_device_by_mac gw mac w) = w2" by simp
          with e2 l k True vd conn have "?P rs [MacFilterGet tok] tok" by simp
          then show ?thesis by blast
        next
          case post: (sent tok')
          with sent(2) have "tok' = tok" by simp
          with post(3) e2 have e3: "events w3 = events w @ CallBlock mac
              # map Sent (rs @ [MacFilterGet tok, MacFilterPost tok (py_upper mac)])"
            by simp
          have "snd (block_device_by_mac gw mac w) = w3" using 2 s3 by simp
          moreover have "\<not> accepted rp' \<longrightarrow> \<not> fst (block_device_by_mac gw mac w)"
            using 2 a3 by auto
          ultimately have "?P rs [MacFilterGet tok, MacFilterPost tok (py_upper mac)] tok"
            using e3 l k True vd conn fd p by simp
          then show ?thesis by blast
        qed
      qed
    qed
  qed
qed

lemma allow_device_by_mac_requests:
  "\<exists>logins filters tok fid.
      events (snd (allow_device_by_mac gw mac w))
        = events w @ CallAllow mac # map Sent (logins @ filters)
      \<and> list_all is_login logins \<and> count_list logins LoginChallenge \<le> 1
      \<and> (filters = [] \<or> filters = [MacFilterGet tok]
           \<or> filters = [MacFilterGet tok, MacFilterDelete tok fid])
      \<and> (\<not> connected w \<or> \<not> fst (validated gw (CallAllow mac) w)
           \<longrightarrow> filters = [] \<and> \<not> fst (allow_device_by_mac gw mac w))
      \<and> (\<not> accepted (fst (fetched gw (CallAllow mac) w))
           \<longrightarrow> length filters \<le> 1 \<and> \<not> fst (allow_device_by_mac gw mac w))
      \<and> (filters = [MacFilterGet tok, MacFilterDelete tok fid]
           \<and> \<not> accepted (fst (send_auth gw (\<lambda>t. MacFilterDelete t fid)
                                  (snd (fetched gw (CallAllow mac) w))))
           \<longrightarrow> \<not> fst (allow_device_by_mac gw mac w))"
  (is "\<exists>logins filters tok fid. ?P logins filters tok fid")
proof (cases "connected w")
  case False
  then have "allow_device_by_mac gw mac w = (False, emit (CallAllow mac) w)"
    by (simp add: allow_device_by_mac_def Let_def emit_def)
  with False have "?P [] [] [] JNull" by (simp add: emit_def)
  then show ?thesis by blast
next
  case conn: True
  let ?w0 = "emit (CallAllow mac) w"
  have c0: "connected ?w0" using conn by (simp add: emit_def)
  obtain ok w1 where v: "ensure_valid_session gw ?w0 = (ok, w1)"
    by (cases "ensure_valid_session gw ?w0")
  from ensure_valid_session_trace[OF v]
  obtain rs where e1: "events w1 = events w @ CallAllow mac # map Sent rs"
    and l: "list_all is_login rs" and k: "count_list rs LoginChallenge \<le> 1"
    by (auto simp: emit_def)
  have vd: "validated gw (CallAllow mac) w = (ok, w1)" by (simp add: validated_def v)
  show ?thesis
  proof (cases ok)
    case False
    with v c0 have "allow_device_by_mac gw mac w = (False, w1)"
      by (simp add: allow_device_by_mac_def Let_def)
    with e1 l k have "?P rs [] [] JNull" by simp
    then show ?thesis by blast
  next
    case True
    obtain rp w2 where g: "send_auth gw MacFilterGet w1 = (rp, w2)"
      by (cases "send_auth gw MacFilterGet w1")
    have fd: "fetched gw (CallAllow mac) w = (rp, w2)" by (simp add: fetched_def vd g)
    have v': "ensure_valid_session gw ?w0 = (True, w1)" using v True by simp
    note tail = allow_device_by_mac_tail[OF conn v' g]
    from g show ?thesis
    proof (cases rule: send_auth_cases)
      case raised
      with tail have "allow_device_by_mac gw mac w = (False, w1)" by auto
      with e1 l k True vd conn have "?P rs [] [] JNull" by simp
      then show ?thesis by blast
    next
      case (sent tok)
      have e2: "events w2 = events w @ CallAllow mac # map Sent (rs @ [MacFilterGet tok])"
        by (simp add: sent(3) e1)
      from tail consider "allow_device_by_mac gw mac w = (False, w2)"
        | "allow_device_by_mac gw mac w = (True, w2)" "accepted rp"
        | fid where "allow_device_by_mac gw mac w
                = (accepted (fst (send_auth gw (\<lambda>tok. MacFilterDelete tok fid) w2)),
                   snd (send_auth gw (\<lambda>tok. MacFilterDelete tok fid) w2))" "accepted rp"
        by auto
      then show ?thesis
      proof cases
        case 1
        with e2 l k True vd conn have "?P rs [MacFilterGet tok] tok JNull" by simp
        then show ?thesis by blast
      next
        case 2
        with e2 l k True vd conn fd have "?P rs [MacFilterGet tok] tok JNull" by simp
        then show ?thesis by blast
      next
        case 3
        obtain rp' w3 where p: "send_auth gw (\<lambda>t. MacFilterDelete t fid) w2 = (rp', w3)"
          by (cases "send_auth gw (\<lambda>t. MacFilterDelete t fid) w2")
        with 3 have r: "allow_device_by_mac gw mac w = (accepted rp', w3)" by simp
        from p show ?thesis
        proof (cases rule: send_auth_cases)
          case raised
          with r have "allow_device_by_mac gw mac w = (False, w2)" by simp
          with e2 l k True vd conn have "?P rs [MacFilterGet tok] tok JNull" by simp
          then show ?thesis by blast
        next
          case del: (sent tok')
          with sent(2) have "tok' = tok" by simp
          with del(3) e2 have e3: "events w3 = events w @ CallAllow mac
              # map Sent (rs @ [MacFilterGet tok, MacFilterDelete tok fid])"
            by simp
          have "?P rs [MacFilterGet tok, MacFilterDelete tok fid] tok fid"
            using e3 l k True vd conn fd p r 3(2) by simp
          then show ?thesis by blast
        qed
      qed
    qed
  qed
qed

text \<open>
  The gateway accepts the token at the probe and rejects it in every filter request.
  Both operations return \<open>False\<close> after the requests listed: no handshake follows the
  rejection and nothing is sent again, although the gateway would have served both.
\<close>

theorem no_handshake_after_rejection:
  "fst (fetched scripted (CallBlock ''aa:bb:cc:dd:ee:01'') rejected_world) = rejected_reply
   \<and> \<not> fst (block_device_by_mac scripted ''aa:bb:cc:dd:ee:01'' rejected_world)
   \<and> events (snd (block_device_by_mac scripted ''aa:bb:cc:dd:ee:01'' rejected_world))
       = [CallBlock ''aa:bb:cc:dd:ee:01'', Sent (LoginProbe ''tok''),
          Sent (MacFilterGet ''tok''), Sent (MacFilterPost ''tok'' ''AA:BB:CC:DD:EE:01'')]
   \<and> gateway (snd (block_device_by_mac scripted ''aa:bb:cc:dd:ee:01'' rejected_world))
       = [ok_reply (JObj [(''challenge'', JStr ''c'')]),
          ok_reply (JObj [(''session_token'', JStr ''new'')]),
          ok_reply (JArr []), ok_reply (JObj [])]
   \<and> \<not> fst (allow_device_by_mac scripted ''aa:bb:cc:dd:ee:01'' rejected_world)
   \<and> events (snd (allow_device_by_mac scripted ''aa:bb:cc:dd:ee:01'' rejected_world))
       = [CallAllow ''aa:bb:cc:dd:ee:01'', Sent (LoginProbe ''tok''),
          Sent (MacFilterGet ''tok'')]"
  by code_simp

text \<open>
  C3 (as amended).  For \<open>block_device_by_mac\<close> and for \<open>allow_device_by_mac\<close>, whatever
  the gateway answers:
  \<^item> the requests of the call are login requests followed by filter requests; no login
    request follows a filter request;
  \<^item> the login requests hold at most one handshake (one challenge request): the session
    is validated once, before the operation;
  \<^item> the filter requests are at most the GET and then the POST (block) or the DELETE
    (allow), each sent at most once and all with the same token: nothing is retried;
  \<^item> when the engine is not connected or the validation fails, no filter request is sent
    and the call returns \<open>False\<close>;
  \<^item> the call returns \<open>False\<close> when the gateway does not accept the POST of a block, the
    GET of an allow (nothing follows that GET but the return) or the DELETE of an allow.
\<close>

theorem session_validated_before_operation:
  "(\<exists>logins filters tok.
      events (snd (block_device_by_mac gw mac w))
        = events w @ CallBlock mac # map Sent (logins @ filters)
      \<and> list_all is_login logins \<and> count_list logins LoginChallenge \<le> 1
      \<and> (filters = [] \<or> filters = [MacFilterGet tok]
           \<or> filters = [MacFilterGet tok, MacFilterPost tok (py_upper mac)])
      \<and> (\<not> connected w \<or> \<not> fst (validated gw (CallBlock mac) w)
           \<longrightarrow> filters = [] \<and> \<not> fst (block_device_by_mac gw mac w))
      \<and> (filters = [MacFilterGet tok, MacFilterPost tok (py_upper mac)]
           \<and> \<not> accepted (fst (send_auth gw (\<lambda>t. MacFilterPost t (py_upper mac))
                                  (snd (fetched gw (CallBlock mac) w))))
           \<longrightarrow> \<not> fst (block_device_by_mac gw mac w)))
   \<and> (\<exists>logins filters tok fid.
      events (snd (allow_device_by_mac gw mac w))
        = events w @ CallAllow mac # map Sent (logins @ filters)
      \<and> list_all is_login logins \<and> count_list logins LoginChallenge \<le> 1
      \<and> (filters = [] \<or> filters = [MacFilterGet tok]
           \<or> filters = [MacFilterGet tok, MacFilterDelete tok fid])
      \<and> (\<not> connected w \<or> \<not> fst (validated gw (CallAllow mac) w)
           \<longrightarrow> filters = [] \<and> \<not> fst (allow_device_by_mac gw mac w))
      \<and> (\<not> accepted (fst (fetched gw (CallAllow mac) w))
           \<longrightarrow> length filters \<le> 1 \<and> \<not> fst (allow_device_by_mac gw mac w))
      \<and> (filters = [MacFilterGet tok, MacFilterDelete tok fid]
           \<and> \<not> accepted (fst (send_auth gw (\<lambda>t. MacFilterDelete t fid)
                                  (snd (fetched gw (CallAllow mac) w))))
           \<longrightarrow> \<not> fst (allow_device_by_mac gw mac w)))"
  using block_device_by_mac_requests[of gw mac w] allow_device_by_mac_requests[of gw mac w]
  by (rule conjI)

theorem session_validated_before_operation_witness:
  "connected rejected_world
   \<and> fst (validated scripted (CallAllow ''aa:bb:cc:dd:ee:01'') rejected_world)
   \<and> \<not> accepted (fst (fetched scripted (CallAllow ''aa:bb:cc:dd:ee:01'') rejected_world))
   \<and> \<not> fst (allow_device_by_mac scripted ''aa:bb:cc:dd:ee:01'' rejected_world)
   \<and> count_list (events (snd (allow_device_by_mac scripted ''aa:bb:cc:dd:ee:01''
                                  rejected_world))) (Sent LoginChallenge) = 0"
proof -
  let ?m = "''aa:bb:cc:dd:ee:01''"
  have c: "connected rejected_world" by (simp add: rejected_world_def)
  have v: "fst (validated scripted (CallAllow ?m) rejected_world)" by code_simp
  have r: "\<not> accepted (fst (fetched scripted (CallAllow ?m) rejected_world))" by code_simp
  have n: "count_list (events (snd (allow_device_by_mac scripted ?m rejected_world)))
             (Sent LoginChallenge) = 0" by code_simp
  have "\<not> accepted (fst (fetched scripted (CallAllow ?m) rejected_world))
       \<longrightarrow> \<not> fst (allow_device_by_mac scripted ?m rejected_world)"
    using session_validated_before_operation[where gw=scripted and mac="?m" and w=rejected_world]
    by blast
  with r have "\<not> fst (allow_device_by_mac scripted ?m rejected_world)" by (rule mp[rotated])
  with c v r n show ?thesis by blast
qed

section \<open>The two shapes of the filter list\<close>






















end
